theory Spec2Isabelle
  imports Main "HOL-Library.Word" "HOL-Library.Multiset"
begin

unbundle bit_operations_syntax

section \<open>Inotify wrapper for recursive directory watches (inotify.hpp)\<close>

subsection \<open>Constants of the kernel interface\<close>

type_synonym u32 = "32 word"

text \<open>Event bits of \<^verbatim>\<open><sys/inotify.h>\<close> and error numbers of \<^verbatim>\<open><errno.h>\<close> (Linux).\<close>

definition IN_MOVED_TO :: u32 where "IN_MOVED_TO = 0x80"
definition IN_CREATE :: u32 where "IN_CREATE = 0x100"
definition IN_DELETE_SELF :: u32 where "IN_DELETE_SELF = 0x400"
definition IN_MOVE_SELF :: u32 where "IN_MOVE_SELF = 0x800"
definition IN_IGNORED :: u32 where "IN_IGNORED = 0x8000"
definition IN_ONLYDIR :: u32 where "IN_ONLYDIR = 0x1000000"
definition IN_ISDIR :: u32 where "IN_ISDIR = 0x40000000"
definition IN_ALL_EVENTS :: u32 where "IN_ALL_EVENTS = 0xfff"

definition EIO :: int where "EIO = 5"
definition EINVAL :: int where "EINVAL = 22"

text \<open>\<^verbatim>\<open>sizeof(inotify_event)\<close>: four 32-bit fields. The member \<^verbatim>\<open>buffer\<close> has
  \<^verbatim>\<open>(4*1024 + 16 - 1) / 16 = 256\<close> elements, hence \<^verbatim>\<open>sizeof(buffer) = 4096\<close>.\<close>

text \<open>Narrowing to a 32-bit \<^verbatim>\<open>int\<close>.\<close>

definition to_int32 :: "int \<Rightarrow> int" where
  "to_int32 x = (x + 2 ^ 31) mod 2 ^ 32 - 2 ^ 31"

definition sizeof_event :: int where "sizeof_event = 16"
definition sizeof_buffer :: int where "sizeof_buffer = ((4 * 1024 + 16 - 1) div 16) * 16"

subsection \<open>Data model\<close>

text \<open>\<^verbatim>\<open>struct Watch { std::string path; bool in_move; }\<close>\<close>

record Watch =
  path :: string
  in_move :: bool

text \<open>\<^verbatim>\<open>struct inotify_event\<close>. The flexible member \<^verbatim>\<open>name\<close> is kept as the C string it holds
  (the bytes before the first NUL); \<^verbatim>\<open>len\<close> is the padded length in bytes.\<close>

record inotify_event =
  wd :: int
  mask :: u32
  cookie :: u32
  len :: nat
  name :: string

text \<open>What \<^verbatim>\<open>fs::status\<close> reports for a directory entry (symlinks are followed).\<close>

datatype file_type = none | not_found | regular | directory | symlink | block | character
  | fifo | socket | unknown

definition fs_exists :: "file_type \<Rightarrow> bool" where
  "fs_exists t = (t \<noteq> none \<and> t \<noteq> not_found)"

definition is_directory :: "file_type \<Rightarrow> bool" where
  "is_directory t = (t = directory)"

definition is_other :: "file_type \<Rightarrow> bool" where
  "is_other t = (fs_exists t \<and> t \<noteq> regular \<and> t \<noteq> directory \<and> t \<noteq> symlink)"

text \<open>One entry produced by \<^verbatim>\<open>fs::directory_iterator\<close>: its file name, its status, and what
  iterating over the entry itself yields (\<open>None\<close> when the iterator's constructor throws).
  The file system below a path is a finite tree.\<close>

datatype dirent = Dirent (d_name: string) (d_type: file_type) (d_sub: "dirent list option")

datatype error = SystemError int | FilesystemError | OutOfRange

datatype log_msg =
    WarnCannotWatch string int
  | ErrBufferUnderruns
  | WarnRmWatch int
  | ErrSyscall string int
  | ErrIncompleteEvent
  | ErrUnknownWd int

datatype syscall =
    SysAddWatch string u32
  | SysRmWatch int
  | SysPoll int
  | SysUsleep nat
  | SysRead

datatype poll_result = PollTimeout | PollReady | PollError int

datatype read_result = ReadEvents "inotify_event list" | ReadError int

text \<open>The operating system and the C++ run time as the wrapper sees them.
  \<open>back_of_empty\<close> is the character that \<^verbatim>\<open>path.back()\<close> happens to read when \<^verbatim>\<open>path\<close> is
  empty (the source does not guard it). The replies of \<^verbatim>\<open>poll\<close>, \<^verbatim>\<open>usleep\<close>, \<^verbatim>\<open>read\<close> and of
  the clock depend on how many system calls were made before. \<open>table_order\<close> is the order
  in which the \<^verbatim>\<open>std::unordered_map\<close> hands out its entries to a loop over it, which the
  language leaves open. \<open>stale_read\<close> is the event that the bytes at an offset of the buffer
  read as when no whole record starts there any more.\<close>

record env =
  inotify_add_watch :: "string \<Rightarrow> u32 \<Rightarrow> int \<times> int"
  inotify_rm_watch :: "int \<Rightarrow> int \<times> int"
  directory_iterator :: "string \<Rightarrow> dirent list option"
  back_of_empty :: char
  sys_poll :: "nat \<Rightarrow> int \<Rightarrow> poll_result"
  sys_usleep :: "nat \<Rightarrow> nat \<Rightarrow> int \<times> int"
  sys_read :: "nat \<Rightarrow> read_result"
  clock_now :: "nat \<Rightarrow> int"
  table_order :: "(int \<times> Watch) list \<Rightarrow> (int \<times> Watch) list"
  stale_read :: "(int \<times> inotify_event) list \<Rightarrow> int \<Rightarrow> inotify_event"

text \<open>The members of \<^verbatim>\<open>class Inotify\<close>, and what it did to the outside: the system calls
  made (\<open>trace\<close>), the messages logged, the number of clock readings. The buffer is a store
  from byte offsets to the records that start there.\<close>

record state =
  imask :: u32
  watches :: "(int \<times> Watch) list"
  buffer :: "(int \<times> inotify_event) list"
  bytes_in_buffer :: int
  bytes_handled :: int
  trace :: "syscall list"
  logged :: "log_msg list"
  clock_reads :: nat

subsection \<open>The watch table (\<^verbatim>\<open>std::unordered_map<int, Watch>\<close>)\<close>

definition find_watch :: "(int \<times> Watch) list \<Rightarrow> int \<Rightarrow> Watch option" where
  "find_watch ws k = map_of ws k"

definition emplace :: "(int \<times> Watch) list \<Rightarrow> int \<Rightarrow> Watch \<Rightarrow> (int \<times> Watch) list" where
  "emplace ws k w = (case map_of ws k of None \<Rightarrow> ws @ [(k, w)] | Some _ \<Rightarrow> ws)"

definition erase :: "(int \<times> Watch) list \<Rightarrow> int \<Rightarrow> (int \<times> Watch) list" where
  "erase ws k = filter (\<lambda>kv. fst kv \<noteq> k) ws"

fun update_watch :: "(int \<times> Watch) list \<Rightarrow> int \<Rightarrow> (Watch \<Rightarrow> Watch) \<Rightarrow> (int \<times> Watch) list" where
  "update_watch [] k f = []"
| "update_watch ((k', w) # ws) k f =
     (if k' = k then (k', f w) # ws else (k', w) # update_watch ws k f)"

subsection \<open>The event buffer\<close>

definition record_size :: "inotify_event \<Rightarrow> int" where
  "record_size ev = sizeof_event + int (len ev)"

definition overlaps :: "int \<Rightarrow> inotify_event \<Rightarrow> int \<times> inotify_event \<Rightarrow> bool" where
  "overlaps off ev old =
     (fst old < off + record_size ev \<and> off < fst old + record_size (snd old))"

text \<open>Writing a record at a byte offset destroys every record whose bytes it touches.\<close>

definition write_event ::
  "(int \<times> inotify_event) list \<Rightarrow> int \<Rightarrow> inotify_event \<Rightarrow> (int \<times> inotify_event) list" where
  "write_event buf off ev = filter (\<lambda>old. \<not> overlaps off ev old) buf @ [(off, ev)]"

definition event_at :: "(int \<times> inotify_event) list \<Rightarrow> int \<Rightarrow> inotify_event option" where
  "event_at buf off = map_of buf off"

text \<open>\<^verbatim>\<open>*(inotify_event*)((char*)buffer + off)\<close>: the record that starts at the offset, or
  what the bytes there read as.\<close>

definition read_event :: "env \<Rightarrow> (int \<times> inotify_event) list \<Rightarrow> int \<Rightarrow> inotify_event" where
  "read_event e buf off = (case event_at buf off of Some ev \<Rightarrow> ev | None \<Rightarrow> stale_read e buf off)"

fun write_events ::
  "(int \<times> inotify_event) list \<Rightarrow> int \<Rightarrow> inotify_event list \<Rightarrow> (int \<times> inotify_event) list" where
  "write_events buf off [] = buf"
| "write_events buf off (ev # evs) =
     write_events (write_event buf off ev) (off + record_size ev) evs"

subsection \<open>Helpers of the C++ library, as the source uses them\<close>

text \<open>\<^verbatim>\<open>path.back()\<close>; on the empty string the source reads out of range.\<close>

definition back_char :: "env \<Rightarrow> string \<Rightarrow> char" where
  "back_char e pth = (if pth = [] then back_of_empty e else last pth)"

text \<open>\<^verbatim>\<open>std::mismatch(path0.begin(), path0.end(), path.begin())\<close>, returning what is left of
  both ranges at the first mismatch. When the second range ends first, the comparison
  reads the string's terminating NUL, which differs from every character of a path.\<close>

fun mismatch :: "string \<Rightarrow> string \<Rightarrow> string \<times> string" where
  "mismatch [] ys = ([], ys)"
| "mismatch (x # xs) [] = (x # xs, [])"
| "mismatch (x # xs) (y # ys) = (if x = y then mismatch xs ys else (x # xs, y # ys))"

text \<open>\<^verbatim>\<open>operator/\<close> of inotify.hpp, which is \<^verbatim>\<open>fs::path::operator/\<close>: a separator is inserted
  unless one side is empty or a separator is already there.\<close>

definition path_join :: "string \<Rightarrow> string \<Rightarrow> string" where
  "path_join p1 p2 =
     (if p1 \<noteq> [] \<and> last p1 \<noteq> CHR ''/'' \<and> p2 \<noteq> [] \<and> hd p2 \<noteq> CHR ''/''
      then p1 @ ''/'' @ p2 else p1 @ p2)"

subsection \<open>\<^verbatim>\<open>Inotify::add_watch\<close>\<close>

definition log :: "state \<Rightarrow> log_msg \<Rightarrow> state" where
  "log st m = st\<lparr>logged := logged st @ [m]\<rparr>"

definition syscall :: "state \<Rightarrow> syscall \<Rightarrow> state" where
  "syscall st c = st\<lparr>trace := trace st @ [c]\<rparr>"

text \<open>Line 164.\<close>

definition recursive :: "env \<Rightarrow> string \<Rightarrow> bool" where
  "recursive e pth = (back_char e pth \<noteq> CHR ''/'')"

text \<open>The mask argument of \<^verbatim>\<open>inotify_add_watch\<close>, line 167.\<close>

definition watch_mask :: "u32 \<Rightarrow> bool \<Rightarrow> u32" where
  "watch_mask m rec =
     m OR IN_ONLYDIR OR IN_MOVE_SELF OR (if rec then IN_CREATE OR IN_MOVED_TO else 0)"

text \<open>Lines 191-192: \<^verbatim>\<open>path == path0\<close> or \<^verbatim>\<open>path == path0 + "/"\<close>.\<close>

definition is_duplicate :: "string \<Rightarrow> string \<Rightarrow> bool \<Rightarrow> bool" where
  "is_duplicate path0 pth rec =
     (let diff = mismatch path0 pth
      in fst diff = [] \<and> (snd diff = [] \<or> (\<not> rec \<and> length (snd diff) = 1)))"

text \<open>Lines 164-205: registration with the kernel and the watch table. The result is the
  watch descriptor, whether \<^verbatim>\<open>add_watch\<close> returns at once, and the new state.\<close>

definition register_watch :: "env \<Rightarrow> state \<Rightarrow> string \<Rightarrow> int \<times> bool \<times> state" where
  "register_watch e st pth =
     (let rec = recursive e pth;
          m = watch_mask (imask st) rec;
          (w, errno) = inotify_add_watch e pth m;
          st1 = syscall st (SysAddWatch pth m)
      in if w = -1 then (w, True, log st1 (WarnCannotWatch pth errno))
         else (case find_watch (watches st1) w of
                 None \<Rightarrow>
                   (w, False,
                    st1\<lparr>watches := emplace (watches st1) w \<lparr>path = pth, in_move = False\<rparr>\<rparr>)
               | Some w0 \<Rightarrow>
                   if is_duplicate (path w0) pth rec then (w, True, st1)
                   else (w, False,
                         st1\<lparr>watches := update_watch (watches st1) w (\<lambda>x. x\<lparr>path := pth\<rparr>)\<rparr>)))"

text \<open>Line 259: \<^verbatim>\<open>(name.size()+sizeof(int))/sizeof(int)*sizeof(int)\<close> as \<^verbatim>\<open>uint32_t\<close>.\<close>

definition name_len :: "string \<Rightarrow> nat" where
  "name_len n = ((length n + 4) div 4 * 4) mod 2 ^ 32"

text \<open>Line 264: \<^verbatim>\<open>bytes_in_buffer > sizeof(buffer)\<close> compares an \<^verbatim>\<open>int\<close> with a \<^verbatim>\<open>size_t\<close>, so a
  negative left side counts as huge.\<close>

definition exceeds_buffer :: "int \<Rightarrow> bool" where
  "exceeds_buffer b = (b < 0 \<or> b > sizeof_buffer)"

definition created_event :: "int \<Rightarrow> bool \<Rightarrow> string \<Rightarrow> inotify_event" where
  "created_event w isdir n =
     \<lparr>wd = w, mask = (if isdir then IN_ISDIR OR IN_CREATE else IN_CREATE), cookie = 0,
      len = name_len n, name = n\<rparr>"

text \<open>Line 256: which children get a record.\<close>

definition reported :: "u32 \<Rightarrow> bool \<Rightarrow> dirent \<Rightarrow> bool" where
  "reported m rec d =
     (\<not> is_other (d_type d) \<and> (m AND IN_CREATE \<noteq> 0 \<or> (is_directory (d_type d) \<and> rec)))"

text \<open>Lines 249-275: the loop over the children when \<^verbatim>\<open>in_move\<close> is false.\<close>

fun synth_events :: "state \<Rightarrow> int \<Rightarrow> bool \<Rightarrow> dirent list \<Rightarrow> (error + unit) \<times> state" where
  "synth_events st w rec [] = (Inr (), st)"
| "synth_events st w rec (d # ds) =
     (if \<not> is_other (d_type d) then
        (let isdir = is_directory (d_type d)
         in if imask st AND IN_CREATE \<noteq> 0 \<or> (isdir \<and> rec) then
              (let n = d_name d;
                   l = name_len n;
                   off = bytes_in_buffer st;
                   st1 = st\<lparr>bytes_in_buffer := off + (sizeof_event + int l)\<rparr>
               in if exceeds_buffer (bytes_in_buffer st1)
                  then (Inl (SystemError EINVAL), log st1 ErrBufferUnderruns)
                  else synth_events
                         (st1\<lparr>buffer := write_event (buffer st1) off (created_event w isdir n)\<rparr>)
                         w rec ds)
            else synth_events st w rec ds)
      else synth_events st w rec ds)"

text \<open>The records that the loop is to write for a list of children, and their bytes.\<close>

definition synth_records :: "int \<Rightarrow> u32 \<Rightarrow> bool \<Rightarrow> dirent list \<Rightarrow> inotify_event list" where
  "synth_records w m rec ds =
     map (\<lambda>d. created_event w (is_directory (d_type d)) (d_name d)) (filter (reported m rec) ds)"

definition records_size :: "inotify_event list \<Rightarrow> int" where
  "records_size evs = sum_list (map record_size evs)"

text \<open>\<^verbatim>\<open>add_watch\<close> with the directory tree below \<^verbatim>\<open>path\<close> at hand (lines 163-279), and the
  loop of lines 234-239 over the subdirectories.\<close>

fun add_watch_in ::
    "env \<Rightarrow> state \<Rightarrow> string \<Rightarrow> dirent list option \<Rightarrow> bool \<Rightarrow> (error + int) \<times> state"
  and add_subdirs :: "env \<Rightarrow> state \<Rightarrow> string \<Rightarrow> dirent list \<Rightarrow> (error + unit) \<times> state" where
  "add_watch_in e st pth None inmove =
     (case register_watch e st pth of
        (w, True, st1) \<Rightarrow> (Inr w, st1)
      | (w, False, st1) \<Rightarrow>
          if inmove \<and> \<not> recursive e pth then (Inr w, st1)
          else (Inl FilesystemError, st1))"
| "add_watch_in e st pth (Some ents) inmove =
     (case register_watch e st pth of
        (w, True, st1) \<Rightarrow> (Inr w, st1)
      | (w, False, st1) \<Rightarrow>
          if inmove then
            (if recursive e pth then
               (case add_subdirs e st1 pth ents of
                  (Inl err, st2) \<Rightarrow> (Inl err, st2)
                | (Inr _, st2) \<Rightarrow> (Inr w, st2))
             else (Inr w, st1))
          else
            (case synth_events st1 w (recursive e pth) ents of
               (Inl err, st2) \<Rightarrow> (Inl err, st2)
             | (Inr _, st2) \<Rightarrow> (Inr w, st2)))"
| "add_subdirs e st pth [] = (Inr (), st)"
| "add_subdirs e st pth (Dirent n t sub # ds) =
     (if is_directory t then
        (case add_watch_in e st (path_join pth n) sub True of
           (Inl err, st1) \<Rightarrow> (Inl err, st1)
         | (Inr _, st1) \<Rightarrow> add_subdirs e st1 pth ds)
      else add_subdirs e st pth ds)"

definition add_watch :: "env \<Rightarrow> state \<Rightarrow> string \<Rightarrow> bool \<Rightarrow> (error + int) \<times> state" where
  "add_watch e st pth inmove = add_watch_in e st pth (directory_iterator e pth) inmove"

subsection \<open>\<^verbatim>\<open>Inotify::rm_watch\<close>\<close>

definition rm_watch :: "env \<Rightarrow> state \<Rightarrow> int \<Rightarrow> state" where
  "rm_watch e st w =
     (let (r, errno) = inotify_rm_watch e w;
          st1 = syscall st (SysRmWatch w)
      in if r \<noteq> 0 then log st1 (WarnRmWatch errno) else st1)"

subsection \<open>\<^verbatim>\<open>Inotify::read\<close>\<close>

text \<open>\<^verbatim>\<open>s.compare(0, w.size(), w) == 0\<close>: \<open>s\<close> starts with \<open>w\<close>.\<close>

definition starts_with :: "string \<Rightarrow> string \<Rightarrow> bool" where
  "starts_with s w = (take (length w) s = w)"

text \<open>Lines 410-415: the loop over the whole table, for the entries in the order in which
  the table hands them out.\<close>

fun rm_subtree :: "env \<Rightarrow> state \<Rightarrow> string \<Rightarrow> (int \<times> Watch) list \<Rightarrow> state" where
  "rm_subtree e st wpath [] = st"
| "rm_subtree e st wpath ((k, w) # ws) =
     (if starts_with (path w) wpath then rm_subtree e (rm_watch e st k) wpath ws
      else rm_subtree e st wpath ws)"

text \<open>Lines 397-420, the body of \<^verbatim>\<open>if ( event.mask & IN_MOVE_SELF )\<close>. \<open>k\<close> is the key of the
  entry that \<^verbatim>\<open>watch\<close> refers to, \<open>evwd\<close> is \<^verbatim>\<open>event.wd\<close>. The entry was found on line 358
  and nothing erases it before line 425.\<close>

definition handle_move_self :: "env \<Rightarrow> state \<Rightarrow> int \<Rightarrow> int \<Rightarrow> state" where
  "handle_move_self e st k evwd =
     (case find_watch (watches st) k of
        None \<Rightarrow> st
      | Some watch \<Rightarrow>
          if in_move watch
          then st\<lparr>watches := update_watch (watches st) k (\<lambda>x. x\<lparr>in_move := False\<rparr>)\<rparr>
          else if back_char e (path watch) = CHR ''/'' then rm_watch e st evwd
          else rm_subtree e st (path watch) (table_order e (watches st)))"

text \<open>Lines 369-394: a new subdirectory was created or moved in. \<^verbatim>\<open>watches.at(wd)\<close> throws
  \<^verbatim>\<open>std::out_of_range\<close> on a missing key.\<close>

definition handle_subdir ::
  "env \<Rightarrow> state \<Rightarrow> Watch \<Rightarrow> inotify_event \<Rightarrow> (error + unit) \<times> state" where
  "handle_subdir e st watch ev =
     (if mask ev AND (IN_CREATE OR IN_MOVED_TO) \<noteq> 0 \<and> mask ev AND IN_ISDIR \<noteq> 0
         \<and> back_char e (path watch) \<noteq> CHR ''/''
      then
        (let inmove = (mask ev AND IN_MOVED_TO \<noteq> 0)
         in case add_watch e st (path_join (path watch) (name ev)) inmove of
              (Inl err, st1) \<Rightarrow> (Inl err, st1)
            | (Inr w, st1) \<Rightarrow>
                if inmove \<and> w \<ge> 0 then
                  (case find_watch (watches st1) w of
                     None \<Rightarrow> (Inl OutOfRange, st1)
                   | Some _ \<Rightarrow>
                       (Inr (),
                        st1\<lparr>watches := update_watch (watches st1) w (\<lambda>x. x\<lparr>in_move := True\<rparr>)\<rparr>))
                else (Inr (), st1))
      else (Inr (), st))"

text \<open>Lines 396-430. \<^verbatim>\<open>event\<close> is a reference into the buffer, so its fields are read
  again here, from whatever is at its offset by now (\<^verbatim>\<open>add_watch\<close> may have written there).\<close>

definition handle_rest :: "env \<Rightarrow> state \<Rightarrow> int \<Rightarrow> int \<Rightarrow> (error + int option) \<times> state" where
  "handle_rest e st off k =
     (let ev = read_event e (buffer st) off;
          st1 = (if mask ev AND IN_MOVE_SELF \<noteq> 0
                 then handle_move_self e st k (wd ev) else st);
          st2 = (if mask ev AND IN_IGNORED \<noteq> 0
                 then st1\<lparr>watches := erase (watches st1) (wd ev)\<rparr> else st1)
      in if mask ev AND imask st2 \<noteq> 0 then (Inr (Some off), st2) else (Inr None, st2))"

text \<open>Lines 343-430: one round of the \<^verbatim>\<open>do\<close> loop. The result is an exception, the offset
  of the returned event, or \<open>None\<close> when the round falls through to the loop condition.
  \<^verbatim>\<open>bytes_handled += sizeof(inotify_event) + event.len\<close> is narrowed to \<^verbatim>\<open>int\<close>.\<close>

definition handle_event :: "env \<Rightarrow> state \<Rightarrow> (error + int option) \<times> state" where
  "handle_event e st =
     (let off = bytes_handled st;
          ev = read_event e (buffer st) off;
          st1 = st\<lparr>bytes_handled := to_int32 (off + (sizeof_event + int (len ev)))\<rparr>
      in if bytes_handled st1 \<ge> bytes_in_buffer st1 \<and> bytes_handled st1 > bytes_in_buffer st1
         then (Inl (SystemError EINVAL), log st1 ErrIncompleteEvent)
         else
           (let st2 = (if bytes_handled st1 \<ge> bytes_in_buffer st1
                       then st1\<lparr>bytes_in_buffer := 0, bytes_handled := 0\<rparr> else st1)
            in case find_watch (watches st2) (wd ev) of
                 None \<Rightarrow> (Inl (SystemError EINVAL), log st2 (ErrUnknownWd (wd ev)))
               | Some watch \<Rightarrow>
                   (case handle_subdir e st2 watch ev of
                      (Inl err, st3) \<Rightarrow> (Inl err, st3)
                    | (Inr _, st3) \<Rightarrow> handle_rest e st3 off (wd ev))))"

text \<open>Lines 342-433: the \<^verbatim>\<open>do ... while ( bytes_handled > 0 )\<close> loop.\<close>

partial_function (option) drain :: "env \<Rightarrow> state \<Rightarrow> ((error + int option) \<times> state) option" where
  "drain e st =
     (case handle_event e st of
        (Inl err, st1) \<Rightarrow> Some (Inl err, st1)
      | (Inr (Some off), st1) \<Rightarrow> Some (Inr (Some off), st1)
      | (Inr None, st1) \<Rightarrow>
          if bytes_handled st1 > 0 then drain e st1 else Some (Inr None, st1))"

declare drain.simps [code]

datatype 'a flow = Return 'a | Continue

text \<open>Lines 315-340: refilling the empty buffer. \<^verbatim>\<open>read_delay*1000u\<close> is unsigned.\<close>

definition throw_sys :: "state \<Rightarrow> string \<Rightarrow> int \<Rightarrow> (error + int option) flow \<times> state" where
  "throw_sys st whr errno = (Return (Inl (SystemError errno)), log st (ErrSyscall whr errno))"

definition fill :: "env \<Rightarrow> state \<Rightarrow> int \<Rightarrow> int \<Rightarrow> (error + int option) flow \<times> state" where
  "fill e st timeout read_delay =
     (let r = sys_poll e (length (trace st)) timeout;
          st1 = syscall st (SysPoll timeout)
      in case r of
           PollTimeout \<Rightarrow> (Return (Inr None), st1)
         | PollError errno \<Rightarrow> throw_sys st1 ''poll()'' errno
         | PollReady \<Rightarrow>
             (let usec = nat ((read_delay * 1000) mod 2 ^ 32);
                  (ur, uerrno) = sys_usleep e (length (trace st1)) usec;
                  st2 = syscall st1 (SysUsleep usec)
              in if ur \<noteq> -1 then
                   (let rr = sys_read e (length (trace st2));
                        st3 = syscall st2 SysRead
                    in case rr of
                         ReadError errno \<Rightarrow> throw_sys (st3\<lparr>bytes_in_buffer := -1\<rparr>) ''read()'' errno
                       | ReadEvents evs \<Rightarrow>
                           (let n = sum_list (map record_size evs);
                                st4 = st3\<lparr>buffer := write_events (buffer st3) 0 evs,
                                          bytes_in_buffer := n\<rparr>
                            in if n > 0 then (Continue, st4)
                               else throw_sys st4 ''read()'' EIO))
                 else throw_sys st2 ''usleep()'' uerrno))"

text \<open>\<^verbatim>\<open>duration_cast<milliseconds>(...).count()\<close> of a difference of clock readings in
  nanoseconds, truncating towards zero, then narrowed to \<^verbatim>\<open>int\<close>.\<close>

definition ns_to_ms :: "int \<Rightarrow> int" where
  "ns_to_ms d = (if d < 0 then - ((- d) div 1000000) else d div 1000000)"

definition elapsed_ms :: "int \<Rightarrow> int \<Rightarrow> int" where
  "elapsed_ms t0 t1 = to_int32 (ns_to_ms (t1 - t0))"

definition tick :: "state \<Rightarrow> state" where
  "tick st = st\<lparr>clock_reads := Suc (clock_reads st)\<rparr>"

text \<open>Lines 300-445. A result \<open>Inr None\<close> is \<^verbatim>\<open>nullptr\<close> (timed out), \<open>Inr (Some off)\<close> is the
  address of the record at byte offset \<open>off\<close>; \<open>None\<close> means that the call never returns.
  \<^verbatim>\<open>timeout\<close> is an \<^verbatim>\<open>int\<close>, so \<^verbatim>\<open>timeout -= time_elapsed\<close> wraps around at 32 bits.\<close>

partial_function (option) read ::
  "env \<Rightarrow> state \<Rightarrow> int \<Rightarrow> int \<Rightarrow> ((error + int option) \<times> state) option" where
  "read e st timeout read_delay =
     (let t0 = clock_now e (clock_reads st);
          st0 = tick st
      in case (if bytes_in_buffer st0 = 0 then fill e st0 timeout read_delay
               else (Continue, st0)) of
           (Return r, st1) \<Rightarrow> Some (r, st1)
         | (Continue, st1) \<Rightarrow>
             (case drain e st1 of
                None \<Rightarrow> None
              | Some (Inl err, st2) \<Rightarrow> Some (Inl err, st2)
              | Some (Inr (Some off), st2) \<Rightarrow> Some (Inr (Some off), st2)
              | Some (Inr None, st2) \<Rightarrow>
                  (let time_elapsed = elapsed_ms t0 (clock_now e (clock_reads st2));
                       st3 = tick st2
                   in if timeout < 0 then read e st3 timeout read_delay
                      else if to_int32 (timeout - time_elapsed) > 0
                      then read e st3 (to_int32 (timeout - time_elapsed)) read_delay
                      else Some (Inr None, st3))))"

declare read.simps [code]

subsection \<open>What a step may do to the instance\<close>

text \<open>The system calls that wait for the kernel or take events from it.\<close>

fun is_wait :: "syscall \<Rightarrow> bool" where
  "is_wait (SysPoll t) = True"
| "is_wait (SysUsleep u) = True"
| "is_wait SysRead = True"
| "is_wait c = False"

text \<open>\<open>extends st st'\<close>: from \<open>st\<close> to \<open>st'\<close> the interest mask, the read cursor and the clock
  are untouched, system calls were only added and none of them waits, no table entry was
  erased, and no \<^verbatim>\<open>in_move\<close> flag was raised.\<close>

definition extends :: "state \<Rightarrow> state \<Rightarrow> bool" where
  "extends st st' \<longleftrightarrow>
     imask st' = imask st \<and> bytes_handled st' = bytes_handled st
     \<and> clock_reads st' = clock_reads st
     \<and> (\<exists>rest. trace st' = trace st @ rest \<and> list_all (\<lambda>c. \<not> is_wait c) rest)
     \<and> (\<forall>k. find_watch (watches st) k \<noteq> None \<longrightarrow> find_watch (watches st') k \<noteq> None)
     \<and> (\<forall>k w'. find_watch (watches st') k = Some w' \<longrightarrow> in_move w' \<longrightarrow>
            (\<exists>w0. find_watch (watches st) k = Some w0 \<and> in_move w0))"

text \<open>\<open>quiet st st'\<close>: only system calls that do not wait were added, and the interest
  mask and the clock are untouched. \<open>no_new_flags st st'\<close>: no \<^verbatim>\<open>in_move\<close> flag was raised.\<close>

definition quiet :: "state \<Rightarrow> state \<Rightarrow> bool" where
  "quiet st st' \<longleftrightarrow>
     imask st' = imask st \<and> clock_reads st' = clock_reads st
     \<and> (\<exists>rest. trace st' = trace st @ rest \<and> list_all (\<lambda>c. \<not> is_wait c) rest)"

definition no_new_flags :: "state \<Rightarrow> state \<Rightarrow> bool" where
  "no_new_flags st st' \<longleftrightarrow>
     (\<forall>k w'. find_watch (watches st') k = Some w' \<longrightarrow> in_move w' \<longrightarrow>
        (\<exists>w0. find_watch (watches st) k = Some w0 \<and> in_move w0))"

text \<open>The instance after lines 346-356 moved the cursor past a record that is whole.\<close>

definition advanced :: "state \<Rightarrow> inotify_event \<Rightarrow> state" where
  "advanced st ev =
     (let st1 = st\<lparr>bytes_handled :=
                  to_int32 (bytes_handled st + (sizeof_event + int (len ev)))\<rparr>
      in if bytes_handled st1 \<ge> bytes_in_buffer st1
         then st1\<lparr>bytes_in_buffer := 0, bytes_handled := 0\<rparr> else st1)"

text \<open>The event under the read cursor tells of a directory moved into a recursive watch
  (the condition of line 369 together with \<^verbatim>\<open>in_move\<close> of line 372).\<close>

definition moved_in_event :: "env \<Rightarrow> state \<Rightarrow> bool" where
  "moved_in_event e st =
     (let ev = read_event e (buffer st) (bytes_handled st)
      in case find_watch (watches st) (wd ev) of
           None \<Rightarrow> False
         | Some watch \<Rightarrow>
             mask ev AND IN_MOVED_TO \<noteq> 0 \<and> mask ev AND IN_ISDIR \<noteq> 0
             \<and> back_char e (path watch) \<noteq> CHR ''/'')"

text \<open>A self-move event as the kernel sends it: \<^verbatim>\<open>IN_MOVE_SELF\<close>, and none of the bits that
  tell of a child or of the end of the watch.\<close>

definition self_move_event :: "inotify_event \<Rightarrow> bool" where
  "self_move_event ev =
     (mask ev AND IN_MOVE_SELF \<noteq> 0 \<and> mask ev AND (IN_CREATE OR IN_MOVED_TO) = 0
      \<and> mask ev AND IN_IGNORED = 0)"

text \<open>The identifiers that the loop of lines 410-415 unregisters for a watch path.\<close>

definition subtree_wds :: "(int \<times> Watch) list \<Rightarrow> string \<Rightarrow> int list" where
  "subtree_wds ws wpath = map fst (filter (\<lambda>kw. starts_with (path (snd kw)) wpath) ws)"

text \<open>The clock never makes \<^verbatim>\<open>read\<close> measure a negative elapsed time.\<close>

definition steady_clock :: "env \<Rightarrow> bool" where
  "steady_clock e \<longleftrightarrow> (\<forall>m n. m \<le> n \<longrightarrow> 0 \<le> elapsed_ms (clock_now e m) (clock_now e n))"

text \<open>Lines 312-340 of \<^verbatim>\<open>read\<close>: the clock is read, and an empty buffer is refilled.\<close>

definition enter :: "env \<Rightarrow> state \<Rightarrow> int \<Rightarrow> int \<Rightarrow> (error + int option) flow \<times> state" where
  "enter e st timeout read_delay =
     (if bytes_in_buffer (tick st) = 0 then fill e (tick st) timeout read_delay
      else (Continue, tick st))"

text \<open>Lines 439-444 of \<^verbatim>\<open>read\<close>, after a drain that returned nothing and left \<open>st2\<close>.\<close>

definition remaining :: "env \<Rightarrow> state \<Rightarrow> state \<Rightarrow> int \<Rightarrow> int" where
  "remaining e st st2 timeout =
     to_int32 (timeout - elapsed_ms (clock_now e (clock_reads st)) (clock_now e (clock_reads st2)))"

text \<open>The time that \<open>k\<close> rounds of \<^verbatim>\<open>read\<close> measured, the first of them starting at the
  clock reading number \<open>c\<close>: each round reads the clock on entry and after its drain.\<close>

fun spent :: "env \<Rightarrow> nat \<Rightarrow> nat \<Rightarrow> int" where
  "spent e c 0 = 0"
| "spent e c (Suc k) =
     elapsed_ms (clock_now e c) (clock_now e (Suc c)) + spent e (Suc (Suc c)) k"

subsection \<open>Example inputs\<close>

text \<open>Sixteen regular files whose names are 255 bytes long.\<close>

definition ex_big :: "dirent list" where
  "ex_big = map (\<lambda>i. Dirent (replicate 254 (CHR ''x'') @ [char_of (97 + i)]) regular None) [0..<16]"

text \<open>A directory \<^verbatim>\<open>/a\<close> holding a regular file, a subdirectory and a fifo, and a
  directory \<^verbatim>\<open>/big\<close>; every other path is missing (\<^verbatim>\<open>ENOENT\<close>).\<close>

definition ex_fs :: "string \<Rightarrow> dirent list option" where
  "ex_fs p =
     (if p = ''/a'' \<or> p = ''/a/''
      then Some [Dirent ''f'' regular None, Dirent ''d'' directory (Some []),
                 Dirent ''p'' fifo None]
      else if p = ''/a/d'' then Some []
      else if p = ''/big'' then Some ex_big
      else None)"

definition ex_env :: env where
  "ex_env =
     \<lparr>inotify_add_watch = (\<lambda>p m. if p = ''/a'' \<or> p = ''/a/'' then (1, 0)
                                  else if p = ''/a/d'' then (2, 0)
                                  else if p = ''/big'' then (3, 0) else (-1, 2)),
      inotify_rm_watch = (\<lambda>w. (0, 0)),
      directory_iterator = ex_fs,
      back_of_empty = CHR 0x00,
      sys_poll = (\<lambda>n t. PollTimeout),
      sys_usleep = (\<lambda>n u. (0, 0)),
      sys_read = (\<lambda>n. ReadEvents []),
      clock_now = (\<lambda>n. 0),
      table_order = rev,
      stale_read = (\<lambda>buf off. \<lparr>wd = 0, mask = 0, cookie = 0, len = 0, name = []\<rparr>)\<rparr>"

text \<open>The same with a system clock that is set back by a millisecond after its first
  reading.\<close>

definition ex_env_back :: env where
  "ex_env_back = ex_env\<lparr>clock_now := (\<lambda>n. if n = 0 then 1000000 else 0)\<rparr>"

text \<open>A kernel that has one event of \<^verbatim>\<open>/a\<close> ready whenever it is asked.\<close>

definition ex_env_ready :: env where
  "ex_env_ready =
     ex_env\<lparr>sys_poll := (\<lambda>n t. PollReady),
            sys_read := (\<lambda>n. ReadEvents [\<lparr>wd = 1, mask = 2, cookie = 0, len = 16, name = ''f''\<rparr>])\<rparr>"

definition ex_state :: "u32 \<Rightarrow> state" where
  "ex_state m =
     \<lparr>imask = m, watches = [], buffer = [], bytes_in_buffer = 0, bytes_handled = 0,
      trace = [], logged = [], clock_reads = 0\<rparr>"

text \<open>The instance after \<^verbatim>\<open>add_watch("/a")\<close> and \<^verbatim>\<open>add_watch("/a/d")\<close>.\<close>

definition ex_watched :: state where
  "ex_watched =
     \<lparr>imask = 0xfff,
      watches = [(1, \<lparr>path = ''/a'', in_move = False\<rparr>),
                 (2, \<lparr>path = ''/a/d'', in_move = False\<rparr>)],
      buffer = [], bytes_in_buffer = 0, bytes_handled = 0,
      trace = [], logged = [], clock_reads = 0\<rparr>"

text \<open>The instance after \<^verbatim>\<open>read\<close> returned the first of the records that the kernel had
  delivered in one batch (interest mask \<^verbatim>\<open>IN_MODIFY\<close>): in \<open>ex_pending\<close> one more record is
  left, which the mask does not select; in \<open>ex_pending2\<close> a selected one follows it.\<close>

definition ex_pending :: state where
  "ex_pending =
     \<lparr>imask = 2,
      watches = [(1, \<lparr>path = ''/a'', in_move = False\<rparr>)],
      buffer = [(0, \<lparr>wd = 1, mask = 2, cookie = 0, len = 16, name = ''g''\<rparr>),
                (32, \<lparr>wd = 1, mask = IN_CREATE, cookie = 0, len = 16, name = ''f''\<rparr>)],
      bytes_in_buffer = 64, bytes_handled = 32,
      trace = [], logged = [], clock_reads = 0\<rparr>"

definition ex_pending2 :: state where
  "ex_pending2 =
     \<lparr>imask = 2,
      watches = [(1, \<lparr>path = ''/a'', in_move = False\<rparr>)],
      buffer = [(0, \<lparr>wd = 1, mask = 2, cookie = 0, len = 16, name = ''g''\<rparr>),
                (32, \<lparr>wd = 1, mask = IN_CREATE, cookie = 0, len = 16, name = ''f''\<rparr>),
                (64, \<lparr>wd = 1, mask = 2, cookie = 0, len = 16, name = ''f''\<rparr>)],
      bytes_in_buffer = 96, bytes_handled = 32,
      trace = [], logged = [], clock_reads = 0\<rparr>"

text \<open>The directory \<^verbatim>\<open>/a/d\<close> was moved into \<^verbatim>\<open>/a\<close> and reconciled (its flag is raised); the
  self-move event for it is pending.\<close>

definition ex_moved :: state where
  "ex_moved =
     \<lparr>imask = 0xfff,
      watches = [(1, \<lparr>path = ''/a'', in_move = False\<rparr>),
                 (2, \<lparr>path = ''/a/d'', in_move = True\<rparr>),
                 (3, \<lparr>path = ''/a/d/e'', in_move = False\<rparr>)],
      buffer = [(0, \<lparr>wd = 2, mask = IN_MOVE_SELF, cookie = 0, len = 0, name = []\<rparr>)],
      bytes_in_buffer = 16, bytes_handled = 0,
      trace = [], logged = [], clock_reads = 0\<rparr>"

text \<open>The same table with no flag raised, and one self-move event for \<^verbatim>\<open>/a/d\<close> pending.\<close>

definition ex_moved_out :: state where
  "ex_moved_out =
     \<lparr>imask = 0xfff,
      watches = [(1, \<lparr>path = ''/a'', in_move = False\<rparr>),
                 (2, \<lparr>path = ''/a/d'', in_move = False\<rparr>),
                 (3, \<lparr>path = ''/a/d/e'', in_move = False\<rparr>)],
      buffer = [(0, \<lparr>wd = 2, mask = IN_MOVE_SELF, cookie = 0, len = 0, name = []\<rparr>)],
      bytes_in_buffer = 16, bytes_handled = 0,
      trace = [], logged = [], clock_reads = 0\<rparr>"

text \<open>The same table after both watches were unregistered; the kernel's \<^verbatim>\<open>IN_IGNORED\<close> for
  \<^verbatim>\<open>/a/d/e\<close> is pending.\<close>

definition ex_gone :: state where
  "ex_gone =
     \<lparr>imask = 0xfff,
      watches = [(1, \<lparr>path = ''/a'', in_move = False\<rparr>),
                 (2, \<lparr>path = ''/a/d'', in_move = False\<rparr>),
                 (3, \<lparr>path = ''/a/d/e'', in_move = False\<rparr>)],
      buffer = [(0, \<lparr>wd = 3, mask = IN_IGNORED, cookie = 0, len = 0, name = []\<rparr>)],
      bytes_in_buffer = 16, bytes_handled = 0,
      trace = [SysRmWatch 3, SysRmWatch 2], logged = [], clock_reads = 0\<rparr>"

section \<open>Properties\<close>

subsection \<open>Registration\<close>

lemma register_watch_trace:
  "trace (snd (snd (register_watch e st pth))) =
     trace st @ [SysAddWatch pth (watch_mask (imask st) (recursive e pth))]"
  by (simp add: register_watch_def Let_def syscall_def log_def split: prod.splits option.splits)

lemma register_watch_frame:
  "imask (snd (snd (register_watch e st pth))) = imask st"
  "buffer (snd (snd (register_watch e st pth))) = buffer st"
  "bytes_in_buffer (snd (snd (register_watch e st pth))) = bytes_in_buffer st"
  "bytes_handled (snd (snd (register_watch e st pth))) = bytes_handled st"
  "clock_reads (snd (snd (register_watch e st pth))) = clock_reads st"
  by (simp_all add: register_watch_def Let_def syscall_def log_def split: prod.splits option.splits)

lemma synth_events_trace: "trace (snd (synth_events st w rec ds)) = trace st"
  by (induction st w rec ds rule: synth_events.induct) (simp_all add: Let_def log_def)

lemma add_watch_in_trace_prefix:
  "\<exists>rest. trace (snd (add_watch_in e st pth lst inmove)) =
      trace st @ SysAddWatch pth (watch_mask (imask st) (recursive e pth)) # rest"
  and add_subdirs_trace_prefix:
  "\<exists>rest. trace (snd (add_subdirs e st pth ds)) = trace st @ rest"
proof (induction e st pth lst inmove and e st pth ds rule: add_watch_in_add_subdirs.induct)
  case (1 e st pth inmove)
  show ?case
    using register_watch_trace [of e st pth]
    by (auto split: prod.splits bool.splits)
next
  case (2 e st pth ents inmove)
  obtain w early st1 where r: "register_watch e st pth = (w, early, st1)"
    by (cases "register_watch e st pth") auto
  have t1: "trace st1 = trace st @ [SysAddWatch pth (watch_mask (imask st) (recursive e pth))]"
    using register_watch_trace [of e st pth] r by simp
  show ?case
  proof (cases "\<not> early \<and> inmove \<and> recursive e pth")
    case True
    then obtain rest where "trace (snd (add_subdirs e st1 pth ents)) = trace st1 @ rest"
      using 2 [OF r [symmetric] refl] by auto
    then show ?thesis using True r t1 by (auto split: prod.splits sum.splits bool.splits)
  next
    case False
    then show ?thesis using r t1 synth_events_trace [of st1 w "recursive e pth" ents]
      by (auto split: prod.splits sum.splits bool.splits)
  qed
next
  case (3 e st pth)
  show ?case by simp
next
  case (4 e st pth n t sub ds)
  show ?case
  proof (cases "is_directory t")
    case False
    then show ?thesis using 4 by simp
  next
    case True
    obtain r st1 where a: "add_watch_in e st (path_join pth n) sub True = (r, st1)"
      by (cases "add_watch_in e st (path_join pth n) sub True") auto
    obtain rest1 where p1: "trace st1 = trace st @ rest1"
      using 4(1) [OF True] a by auto
    show ?thesis
    proof (cases r)
      case (Inl err)
      then show ?thesis using True a p1 by simp
    next
      case (Inr x)
      then obtain rest2 where "trace (snd (add_subdirs e st1 pth ds)) = trace st1 @ rest2"
        using 4(2) [OF True a [symmetric]] by blast
      then show ?thesis using True a p1 Inr by simp
    qed
  qed
qed


lemma add_watch_trace_prefix:
  "\<exists>rest. trace (snd (add_watch e st pth inmove)) =
      trace st @ SysAddWatch pth (watch_mask (imask st) (recursive e pth)) # rest"
  unfolding add_watch_def by (rule add_watch_in_trace_prefix)

lemma register_watch_failure:
  assumes "inotify_add_watch e pth (watch_mask (imask st) (recursive e pth)) = (-1, errno)"
  shows "register_watch e st pth =
           (-1, True, log (syscall st (SysAddWatch pth (watch_mask (imask st) (recursive e pth))))
                        (WarnCannotWatch pth errno))"
  using assms by (simp add: register_watch_def Let_def)

lemma add_watch_in_early:
  "register_watch e st pth = (w, True, st1) \<Longrightarrow> add_watch_in e st pth lst inmove = (Inr w, st1)"
  by (cases lst) simp_all

lemma mismatch_prefix: "mismatch xs (xs @ ys) = ([], ys)"
  by (induction xs) (cases ys, simp_all)

lemma is_duplicate_same: "is_duplicate p0 p0 rec"
  using mismatch_prefix [of p0 "[]"] by (simp add: is_duplicate_def)

lemma is_duplicate_slash: "is_duplicate p0 (p0 @ ''/'') False"
  using mismatch_prefix [of p0 "''/''"] by (simp add: is_duplicate_def)

lemma register_watch_duplicate:
  assumes k: "inotify_add_watch e pth (watch_mask (imask st) (recursive e pth)) = (w, errno)"
    and ok: "w \<noteq> -1"
    and tab: "find_watch (watches st) w = Some w0"
    and same: "pth = path w0 \<or> pth = path w0 @ ''/''"
  shows "register_watch e st pth =
           (w, True, syscall st (SysAddWatch pth (watch_mask (imask st) (recursive e pth))))"
proof -
  have "is_duplicate (path w0) pth (recursive e pth)"
  proof (cases "pth = path w0")
    case True
    then show ?thesis by (simp add: is_duplicate_same)
  next
    case False
    with same have p: "pth = path w0 @ ''/''" by simp
    then have "\<not> recursive e pth" by (simp add: recursive_def back_char_def)
    with p show ?thesis by (simp add: is_duplicate_slash)
  qed
  then show ?thesis
    using k ok tab by (simp add: register_watch_def Let_def syscall_def)
qed

subsection \<open>Records in the buffer\<close>

lemma record_size_pos: "0 < record_size ev"
  by (simp add: record_size_def sizeof_event_def)

lemma map_of_filter_keep:
  "map_of xs k = Some v \<Longrightarrow> P (k, v) \<Longrightarrow> map_of (filter P xs) k = Some v"
  by (induction xs) (auto split: if_splits)

lemma map_of_filter_drop:
  "(\<And>v. \<not> P (k, v)) \<Longrightarrow> map_of (filter P xs) k = None"
  by (induction xs) auto

lemma event_at_write_event_same: "event_at (write_event buf off ev) off = Some ev"
proof -
  have "\<And>v. overlaps off ev (off, v)"
    using record_size_pos by (simp add: overlaps_def)
  then have "map_of (filter (\<lambda>p. \<not> overlaps off ev p) buf) off = None"
    by (intro map_of_filter_drop) simp
  then show ?thesis
    by (simp add: event_at_def write_event_def map_add_def)
qed

lemma event_at_write_event_below:
  assumes "event_at buf x = Some old" and "x + record_size old \<le> off"
  shows "event_at (write_event buf off ev) x = Some old"
proof -
  have "\<not> overlaps off ev (x, old)"
    using assms(2) by (simp add: overlaps_def)
  then have "map_of (filter (\<lambda>p. \<not> overlaps off ev p) buf) x = Some old"
    using assms(1) map_of_filter_keep [of buf x old "\<lambda>p. \<not> overlaps off ev p"]
    by (simp add: event_at_def)
  moreover have "x \<noteq> off"
    using assms(2) record_size_pos [of old] by auto
  ultimately show ?thesis
    by (simp add: event_at_def write_event_def map_add_def)
qed

lemma event_at_write_events_below:
  "event_at buf x = Some old \<Longrightarrow> x + record_size old \<le> off \<Longrightarrow>
   event_at (write_events buf off evs) x = Some old"
proof (induction evs arbitrary: buf off)
  case Nil
  then show ?case by simp
next
  case (Cons ev evs)
  have "event_at (write_event buf off ev) x = Some old"
    using Cons.prems by (rule event_at_write_event_below)
  moreover have "x + record_size old \<le> off + record_size ev"
    using Cons.prems(2) record_size_pos [of ev] by simp
  ultimately show ?case
    using Cons.IH by simp
qed

lemma records_size_Cons [simp]: "records_size (ev # evs) = record_size ev + records_size evs"
  by (simp add: records_size_def)

lemma records_size_Nil [simp]: "records_size [] = 0"
  by (simp add: records_size_def)

lemma records_size_nonneg: "0 \<le> records_size evs"
  using record_size_pos by (induction evs) (simp_all add: less_imp_le add_nonneg_nonneg)

lemma event_at_write_events:
  "i < length evs \<Longrightarrow>
   event_at (write_events buf off evs) (off + records_size (take i evs)) = Some (evs ! i)"
proof (induction evs arbitrary: buf off i)
  case Nil
  then show ?case by simp
next
  case (Cons ev evs)
  show ?case
  proof (cases i)
    case 0
    have "event_at (write_events (write_event buf off ev) (off + record_size ev) evs) off = Some ev"
      by (rule event_at_write_events_below) (simp_all add: event_at_write_event_same)
    then show ?thesis using 0 by simp
  next
    case (Suc j)
    then have "j < length evs" using Cons.prems by simp
    from Cons.IH [OF this, of "write_event buf off ev" "off + record_size ev"]
    show ?thesis using Suc by (simp add: add.assoc)
  qed
qed

lemma synth_events_fits:
  "0 \<le> bytes_in_buffer st \<Longrightarrow>
   bytes_in_buffer st + records_size (synth_records w (imask st) rec ds) \<le> sizeof_buffer \<Longrightarrow>
   synth_events st w rec ds =
     (Inr (),
      st\<lparr>buffer := write_events (buffer st) (bytes_in_buffer st)
                      (synth_records w (imask st) rec ds),
         bytes_in_buffer := bytes_in_buffer st
                      + records_size (synth_records w (imask st) rec ds)\<rparr>)"
proof (induction ds arbitrary: st)
  case Nil
  then show ?case by (simp add: synth_records_def)
next
  case (Cons d ds)
  show ?case
  proof (cases "reported (imask st) rec d")
    case False
    then have "synth_events st w rec (d # ds) = synth_events st w rec ds"
      by (auto simp: reported_def)
    moreover have "synth_records w (imask st) rec (d # ds) = synth_records w (imask st) rec ds"
      using False by (simp add: synth_records_def)
    ultimately show ?thesis using Cons by simp
  next
    case True
    define ev where "ev = created_event w (is_directory (d_type d)) (d_name d)"
    define st2 where "st2 = st\<lparr>bytes_in_buffer := bytes_in_buffer st + record_size ev,
                               buffer := write_event (buffer st) (bytes_in_buffer st) ev\<rparr>"
    have recs: "synth_records w (imask st) rec (d # ds) = ev # synth_records w (imask st) rec ds"
      using True by (simp add: synth_records_def ev_def)
    have sz: "record_size ev = sizeof_event + int (name_len (d_name d))"
      by (simp add: ev_def record_size_def created_event_def)
    have fit: "\<not> exceeds_buffer (bytes_in_buffer st + record_size ev)"
      using Cons.prems recs records_size_nonneg [of "synth_records w (imask st) rec ds"]
        record_size_pos [of ev]
      by (simp add: exceeds_buffer_def)
    have step: "synth_events st w rec (d # ds) = synth_events st2 w rec ds"
      using True fit sz by (auto simp: reported_def Let_def st2_def ev_def)
    have "synth_events st2 w rec ds =
            (Inr (),
             st2\<lparr>buffer := write_events (buffer st2) (bytes_in_buffer st2)
                      (synth_records w (imask st2) rec ds),
                 bytes_in_buffer := bytes_in_buffer st2
                      + records_size (synth_records w (imask st2) rec ds)\<rparr>)"
      using Cons.prems recs record_size_pos [of ev]
      by (intro Cons.IH) (simp_all add: st2_def)
    then show ?thesis
      using step recs by (simp add: st2_def add.assoc)
  qed
qed

lemma synth_events_overflow:
  "0 \<le> bytes_in_buffer st \<Longrightarrow>
   sizeof_buffer < bytes_in_buffer st + records_size (synth_records w (imask st) rec ds) \<Longrightarrow>
   synth_records w (imask st) rec ds \<noteq> [] \<Longrightarrow>
   fst (synth_events st w rec ds) = Inl (SystemError EINVAL)
   \<and> ErrBufferUnderruns \<in> set (logged (snd (synth_events st w rec ds)))"
proof (induction ds arbitrary: st)
  case Nil
  then show ?case by (simp add: synth_records_def)
next
  case (Cons d ds)
  show ?case
  proof (cases "reported (imask st) rec d")
    case False
    then have "synth_events st w rec (d # ds) = synth_events st w rec ds"
      by (auto simp: reported_def)
    moreover have "synth_records w (imask st) rec (d # ds) = synth_records w (imask st) rec ds"
      using False by (simp add: synth_records_def)
    ultimately show ?thesis using Cons by simp
  next
    case True
    define ev where "ev = created_event w (is_directory (d_type d)) (d_name d)"
    define st2 where "st2 = st\<lparr>bytes_in_buffer := bytes_in_buffer st + record_size ev,
                               buffer := write_event (buffer st) (bytes_in_buffer st) ev\<rparr>"
    have recs: "synth_records w (imask st) rec (d # ds) = ev # synth_records w (imask st) rec ds"
      using True by (simp add: synth_records_def ev_def)
    have sz: "record_size ev = sizeof_event + int (name_len (d_name d))"
      by (simp add: ev_def record_size_def created_event_def)
    show ?thesis
    proof (cases "exceeds_buffer (bytes_in_buffer st + record_size ev)")
      case True
      then show ?thesis
        using \<open>reported (imask st) rec d\<close> sz
        by (auto simp: reported_def Let_def log_def)
    next
      case False
      have step: "synth_events st w rec (d # ds) = synth_events st2 w rec ds"
        using \<open>reported (imask st) rec d\<close> False sz
        by (auto simp: reported_def Let_def st2_def ev_def)
      have rest: "sizeof_buffer < bytes_in_buffer st + record_size ev
                      + records_size (synth_records w (imask st) rec ds)"
        using Cons.prems(2) recs by (simp add: add.assoc)
      have "bytes_in_buffer st + record_size ev \<le> sizeof_buffer"
        using False by (simp add: exceeds_buffer_def)
      with rest have "synth_records w (imask st) rec ds \<noteq> []"
        by auto
      then have "fst (synth_events st2 w rec ds) = Inl (SystemError EINVAL)
            \<and> ErrBufferUnderruns \<in> set (logged (snd (synth_events st2 w rec ds)))"
        using Cons.prems(1) rest record_size_pos [of ev]
        by (intro Cons.IH) (simp_all add: st2_def)
      then show ?thesis using step by simp
    qed
  qed
qed

lemma add_watch_in_synth:
  assumes reg: "register_watch e st pth = (w, False, st1)"
  shows "add_watch_in e st pth (Some ents) False =
           (case synth_events st1 w (recursive e pth) ents of
              (Inl err, st2) \<Rightarrow> (Inl err, st2)
            | (Inr _, st2) \<Rightarrow> (Inr w, st2))"
  using reg by simp

lemma register_watch_frame_eq:
  assumes "register_watch e st pth = (w, early, st1)"
  shows "imask st1 = imask st" "buffer st1 = buffer st"
    "bytes_in_buffer st1 = bytes_in_buffer st" "bytes_handled st1 = bytes_handled st"
  using register_watch_frame [of e st pth] assms by simp_all

lemma ex_big_size:
  "records_size (synth_records 3 (imask (ex_state 0xfff)) (recursive ex_env ''/big'') ex_big) = 4352"
proof -
  have m: "imask (ex_state 0xfff) AND IN_CREATE \<noteq> 0"
    by (simp add: ex_state_def IN_CREATE_def)
  have all: "filter (reported (imask (ex_state 0xfff)) (recursive ex_env ''/big'')) ex_big = ex_big"
    using m by (simp add: ex_big_def reported_def is_other_def filter_map o_def)
  have "name_len (replicate 254 (CHR ''x'') @ [c]) = 256" for c
    by (simp add: name_len_def)
  then show ?thesis
    by (simp add: synth_records_def all)
       (simp add: ex_big_def records_size_def o_def record_size_def created_event_def
          sizeof_event_def sum_list_triv)
qed

subsection \<open>What \<^verbatim>\<open>add_watch\<close> leaves alone\<close>

lemma extends_refl: "extends st st"
  by (simp add: extends_def)

lemma extends_trans: "extends a b \<Longrightarrow> extends b c \<Longrightarrow> extends a c"
  unfolding extends_def
  apply (elim conjE exE)
  apply (intro conjI)
       apply simp
      apply simp
     apply simp
    apply (metis append.assoc list_all_append)
   apply blast
  apply blast
  done

lemma map_of_update_watch:
  "map_of (update_watch ws k f) k' = (if k' = k then map_option f (map_of ws k) else map_of ws k')"
  by (induction ws k f rule: update_watch.induct) auto

lemma find_watch_update_watch:
  "find_watch (update_watch ws k f) k' =
     (if k' = k then map_option f (find_watch ws k) else find_watch ws k')"
  by (simp add: find_watch_def map_of_update_watch)

lemma find_watch_emplace_new:
  "find_watch ws k = None \<Longrightarrow>
   find_watch (emplace ws k w) k' = (if k' = k then Some w else find_watch ws k')"
  by (auto simp: find_watch_def emplace_def map_add_def split: option.splits)

lemma extends_syscall: "\<not> is_wait c \<Longrightarrow> extends st (syscall st c)"
  by (simp add: extends_def syscall_def)

lemma extends_log: "extends st (log st m)"
  by (simp add: extends_def log_def)

lemma extends_buffer:
  "extends st (st\<lparr>bytes_in_buffer := b, buffer := buf\<rparr>)"
  by (simp add: extends_def)

lemma extends_register_watch: "extends st (snd (snd (register_watch e st pth)))"
proof -
  let ?m = "watch_mask (imask st) (recursive e pth)"
  let ?st1 = "syscall st (SysAddWatch pth ?m)"
  have a: "extends st ?st1" by (simp add: extends_syscall)
  obtain w errno where k: "inotify_add_watch e pth ?m = (w, errno)"
    by (cases "inotify_add_watch e pth ?m") auto
  have w1: "watches ?st1 = watches st" by (simp add: syscall_def)
  show ?thesis
  proof (cases "w = -1")
    case True
    then show ?thesis
      using k a extends_trans [OF a extends_log [of ?st1]]
      by (simp add: register_watch_def Let_def)
  next
    case False
    show ?thesis
    proof (cases "find_watch (watches st) w")
      case None
      have "extends ?st1 (?st1\<lparr>watches := emplace (watches ?st1) w \<lparr>path = pth, in_move = False\<rparr>\<rparr>)"
        using None w1 by (simp add: extends_def find_watch_emplace_new)
      then show ?thesis
        using k False None w1 extends_trans [OF a]
        by (simp add: register_watch_def Let_def)
    next
      case (Some w0)
      have "extends ?st1 (?st1\<lparr>watches := update_watch (watches ?st1) w (\<lambda>x. x\<lparr>path := pth\<rparr>)\<rparr>)"
        using Some w1 by (auto simp: extends_def find_watch_update_watch)
      then show ?thesis
        using k False Some w1 a extends_trans [OF a]
        by (simp add: register_watch_def Let_def)
    qed
  qed
qed



lemma extends_synth_events: "extends st (snd (synth_events st w rec ds))"
proof (induction ds arbitrary: st)
  case Nil
  show ?case by (simp add: extends_refl)
next
  case (Cons d ds)
  show ?case
  proof (cases "reported (imask st) rec d")
    case False
    then have "synth_events st w rec (d # ds) = synth_events st w rec ds"
      by (auto simp: reported_def)
    then show ?thesis using Cons by simp
  next
    case True
    define off where "off = bytes_in_buffer st"
    define st1 where "st1 = st\<lparr>bytes_in_buffer := off + (sizeof_event + int (name_len (d_name d)))\<rparr>"
    have e1: "extends st st1"
      by (simp add: st1_def extends_def)
    show ?thesis
    proof (cases "exceeds_buffer (bytes_in_buffer st1)")
      case ex: True
      have "synth_events st w rec (d # ds) = (Inl (SystemError EINVAL), log st1 ErrBufferUnderruns)"
        using True ex by (auto simp: reported_def Let_def st1_def off_def)
      then show ?thesis
        using extends_trans [OF e1 extends_log [of st1 ErrBufferUnderruns]] by simp
    next
      case nex: False
      define st2 where "st2 = st1\<lparr>buffer := write_event (buffer st1) off
                                 (created_event w (is_directory (d_type d)) (d_name d))\<rparr>"
      have e2: "extends st st2"
        by (simp add: st2_def st1_def extends_def)
      have step: "synth_events st w rec (d # ds) = synth_events st2 w rec ds"
        using True nex by (auto simp: reported_def Let_def st1_def st2_def off_def)
      show ?thesis
        using step extends_trans [OF e2 Cons [of st2]] by simp
    qed
  qed
qed


lemma add_watch_in_extends:
  "extends st (snd (add_watch_in e st pth lst inmove))
   \<and> extends (snd (snd (register_watch e st pth))) (snd (add_watch_in e st pth lst inmove))"
  and add_subdirs_extends: "extends st (snd (add_subdirs e st pth ds))"
proof (induction e st pth lst inmove and e st pth ds rule: add_watch_in_add_subdirs.induct)
  case (1 e st pth inmove)
  obtain w early st1 where r: "register_watch e st pth = (w, early, st1)"
    by (cases "register_watch e st pth") auto
  have "snd (add_watch_in e st pth None inmove) = st1"
    using r by (cases early) auto
  then show ?case
    using r extends_register_watch [of st e pth] by (simp add: extends_refl)
next
  case (2 e st pth ents inmove)
  obtain w early st1 where r: "register_watch e st pth = (w, early, st1)"
    by (cases "register_watch e st pth") auto
  have e0: "extends st st1"
    using r extends_register_watch [of st e pth] by simp
  have "extends st1 (snd (add_watch_in e st pth (Some ents) inmove))"
  proof (cases "\<not> early \<and> inmove \<and> recursive e pth")
    case True
    have "extends st1 (snd (add_subdirs e st1 pth ents))"
      using 2 [OF r [symmetric] refl] True by auto
    then show ?thesis
      using True r by (auto split: prod.splits sum.splits)
  next
    case False
    then show ?thesis
      using r extends_synth_events [of st1 w "recursive e pth" ents]
      by (cases early) (auto simp: extends_refl split: prod.splits sum.splits)
  qed
  then show ?case
    using r extends_trans [OF e0] by simp
next
  case (3 e st pth)
  show ?case by (simp add: extends_refl)
next
  case (4 e st pth n t sub ds)
  show ?case
  proof (cases "is_directory t")
    case False
    then show ?thesis using 4 by simp
  next
    case True
    obtain r st1 where a: "add_watch_in e st (path_join pth n) sub True = (r, st1)"
      by (cases "add_watch_in e st (path_join pth n) sub True") auto
    have e1: "extends st st1"
      using 4(1) [OF True] a by simp
    show ?thesis
    proof (cases r)
      case (Inl err)
      then show ?thesis using True a e1 by simp
    next
      case (Inr x)
      have "extends st1 (snd (add_subdirs e st1 pth ds))"
        using 4(2) [OF True a [symmetric]] Inr by simp
      then show ?thesis
        using True a Inr extends_trans [OF e1] by simp
    qed
  qed
qed

lemma synth_unused_when_silent:
  "buffer (snd (snd (register_watch e st pth))) = buffer st
   \<and> bytes_in_buffer (snd (snd (register_watch e st pth))) = bytes_in_buffer st"
  by (simp add: register_watch_frame)





lemma extends_keys: "extends a b \<Longrightarrow> find_watch (watches a) k \<noteq> None \<Longrightarrow> find_watch (watches b) k \<noteq> None"
  by (simp add: extends_def)



subsection \<open>Unregistering\<close>

lemma rm_watch_watches: "watches (rm_watch e st w) = watches st"
  by (simp add: rm_watch_def Let_def syscall_def log_def split: prod.splits)

lemma rm_watch_trace: "trace (rm_watch e st w) = trace st @ [SysRmWatch w]"
  by (simp add: rm_watch_def Let_def syscall_def log_def split: prod.splits)

lemma rm_watch_frame:
  "imask (rm_watch e st w) = imask st" "buffer (rm_watch e st w) = buffer st"
  "bytes_in_buffer (rm_watch e st w) = bytes_in_buffer st"
  "bytes_handled (rm_watch e st w) = bytes_handled st"
  "clock_reads (rm_watch e st w) = clock_reads st"
  by (simp_all add: rm_watch_def Let_def syscall_def log_def split: prod.splits)

lemma rm_subtree_watches: "watches (rm_subtree e st wp ws) = watches st"
  by (induction e st wp ws rule: rm_subtree.induct) (simp_all add: rm_watch_watches)

lemma rm_subtree_trace:
  "trace (rm_subtree e st wp ws) = trace st @ map SysRmWatch (subtree_wds ws wp)"
  by (induction e st wp ws rule: rm_subtree.induct)
     (simp_all add: rm_watch_trace subtree_wds_def)

lemma rm_subtree_frame:
  "imask (rm_subtree e st wp ws) = imask st" "buffer (rm_subtree e st wp ws) = buffer st"
  "bytes_in_buffer (rm_subtree e st wp ws) = bytes_in_buffer st"
  "bytes_handled (rm_subtree e st wp ws) = bytes_handled st"
  "clock_reads (rm_subtree e st wp ws) = clock_reads st"
  by (induction e st wp ws rule: rm_subtree.induct) (simp_all add: rm_watch_frame)

lemma starts_with_refl: "starts_with s s"
  by (simp add: starts_with_def)

lemma starts_with_prefix: "starts_with s w \<longleftrightarrow> (\<exists>t. s = w @ t)"
  unfolding starts_with_def
  by (metis append_eq_conv_conj append_take_drop_id)

lemma find_watch_in_subtree:
  "find_watch ws k = Some watch \<Longrightarrow> k \<in> set (subtree_wds ws (path watch))"
proof -
  assume "find_watch ws k = Some watch"
  then have "(k, watch) \<in> set ws"
    by (simp add: find_watch_def map_of_SomeD)
  then have "(k, watch) \<in> set (filter (\<lambda>kw. starts_with (path (snd kw)) (path watch)) ws)"
    by (simp add: starts_with_refl)
  then show ?thesis
    unfolding subtree_wds_def by force
qed

subsection \<open>One round of the loop\<close>

lemma quiet_refl: "quiet st st"
  by (simp add: quiet_def)

lemma quiet_trans: "quiet a b \<Longrightarrow> quiet b c \<Longrightarrow> quiet a c"
  unfolding quiet_def
  apply (elim conjE exE)
  apply (intro conjI)
    apply simp
   apply simp
  apply (metis append.assoc list_all_append)
  done

lemma extends_quiet: "extends a b \<Longrightarrow> quiet a b"
  by (auto simp: extends_def quiet_def)

lemma extends_no_new_flags: "extends a b \<Longrightarrow> no_new_flags a b"
  by (simp add: extends_def no_new_flags_def)

lemma no_new_flags_refl: "no_new_flags st st"
  by (simp add: no_new_flags_def)

lemma no_new_flags_trans: "no_new_flags a b \<Longrightarrow> no_new_flags b c \<Longrightarrow> no_new_flags a c"
  unfolding no_new_flags_def by blast

lemma quiet_same_trace:
  "imask b = imask a \<Longrightarrow> clock_reads b = clock_reads a \<Longrightarrow> trace b = trace a \<Longrightarrow> quiet a b"
  by (simp add: quiet_def)

lemma no_new_flags_same_watches: "watches b = watches a \<Longrightarrow> no_new_flags a b"
  by (simp add: no_new_flags_def)

lemma quiet_rm_watch: "quiet st (rm_watch e st w)"
  by (simp add: quiet_def rm_watch_frame rm_watch_trace)

lemma quiet_rm_subtree: "quiet st (rm_subtree e st wp ws)"
  by (simp add: quiet_def rm_subtree_frame rm_subtree_trace list_all_iff)

lemma find_watch_erase:
  "find_watch (erase ws k) k' = (if k' = k then None else find_watch ws k')"
  unfolding find_watch_def erase_def
  by (induction ws) auto

lemma handle_move_self_frame:
  "imask (handle_move_self e st k w) = imask st"
  "buffer (handle_move_self e st k w) = buffer st"
  "bytes_in_buffer (handle_move_self e st k w) = bytes_in_buffer st"
  "bytes_handled (handle_move_self e st k w) = bytes_handled st"
  "clock_reads (handle_move_self e st k w) = clock_reads st"
  by (simp_all add: handle_move_self_def rm_watch_frame rm_subtree_frame split: option.splits)

lemma quiet_handle_move_self: "quiet st (handle_move_self e st k w)"
  by (simp add: handle_move_self_def quiet_rm_watch quiet_rm_subtree quiet_refl
        quiet_same_trace split: option.splits)

lemma no_new_flags_handle_move_self: "no_new_flags st (handle_move_self e st k w)"
  by (auto simp: handle_move_self_def no_new_flags_def rm_watch_watches rm_subtree_watches
        find_watch_update_watch split: option.splits if_splits)

lemma handle_move_self_keys:
  "find_watch (watches (handle_move_self e st k w)) k' = None \<longleftrightarrow> find_watch (watches st) k' = None"
  by (auto simp: handle_move_self_def rm_watch_watches rm_subtree_watches
        find_watch_update_watch split: option.splits if_splits)

lemma handle_rest_cases:
  "handle_rest e st off k =
     (if mask (read_event e (buffer st) off) AND imask st \<noteq> 0 then Inr (Some off) else Inr None,
      (if mask (read_event e (buffer st) off) AND IN_IGNORED \<noteq> 0
       then (if mask (read_event e (buffer st) off) AND IN_MOVE_SELF \<noteq> 0
             then handle_move_self e st k (wd (read_event e (buffer st) off)) else st)
              \<lparr>watches := erase (watches (if mask (read_event e (buffer st) off) AND IN_MOVE_SELF \<noteq> 0
                              then handle_move_self e st k (wd (read_event e (buffer st) off))
                              else st)) (wd (read_event e (buffer st) off))\<rparr>
       else (if mask (read_event e (buffer st) off) AND IN_MOVE_SELF \<noteq> 0
             then handle_move_self e st k (wd (read_event e (buffer st) off)) else st)))"
  by (simp add: handle_rest_def Let_def handle_move_self_frame)

lemma handle_rest_frame:
  "imask (snd (handle_rest e st off k)) = imask st"
  "buffer (snd (handle_rest e st off k)) = buffer st"
  "bytes_in_buffer (snd (handle_rest e st off k)) = bytes_in_buffer st"
  "bytes_handled (snd (handle_rest e st off k)) = bytes_handled st"
  "clock_reads (snd (handle_rest e st off k)) = clock_reads st"
  by (simp_all add: handle_rest_def Let_def handle_move_self_frame)

lemma quiet_handle_rest: "quiet st (snd (handle_rest e st off k))"
proof -
  have "quiet st (handle_move_self e st k w)" for w
    by (rule quiet_handle_move_self)
  then show ?thesis
    unfolding handle_rest_cases by (auto simp: quiet_def)
qed

lemma no_new_flags_handle_rest: "no_new_flags st (snd (handle_rest e st off k))"
proof -
  have "no_new_flags st (handle_move_self e st k w)" for w
    by (rule no_new_flags_handle_move_self)
  then show ?thesis
    unfolding handle_rest_cases
    by (auto simp: no_new_flags_def find_watch_erase split: if_splits)
qed

lemma handle_rest_erases:
  assumes "find_watch (watches st) k' \<noteq> None"
    and "find_watch (watches (snd (handle_rest e st off k))) k' = None"
  shows "mask (read_event e (buffer st) off) AND IN_IGNORED \<noteq> 0
         \<and> wd (read_event e (buffer st) off) = k'"
  using assms unfolding handle_rest_cases
  by (auto simp: find_watch_erase handle_move_self_keys split: if_splits)

lemma handle_rest_ignored:
  assumes "mask (read_event e (buffer st) off) AND IN_IGNORED \<noteq> 0"
  shows "find_watch (watches (snd (handle_rest e st off k))) (wd (read_event e (buffer st) off)) = None"
  using assms unfolding handle_rest_cases by (simp add: find_watch_erase)

lemma handle_rest_match:
  assumes "handle_rest e st off k = (Inr (Some x), st')"
  shows "x = off \<and> mask (read_event e (buffer st') off) AND imask st' \<noteq> 0"
proof -
  have f: "buffer st' = buffer st" "imask st' = imask st"
    using handle_rest_frame [of e st off k] assms by simp_all
  have "fst (handle_rest e st off k) =
          (if mask (read_event e (buffer st) off) AND imask st \<noteq> 0
           then Inr (Some off) else Inr None)"
    by (simp add: handle_rest_cases)
  then have "x = off \<and> mask (read_event e (buffer st) off) AND imask st \<noteq> 0"
    using assms by (cases "mask (read_event e (buffer st) off) AND imask st = 0") simp_all
  then show ?thesis
    using f by simp
qed

lemma to_int32_id: "- (2 ^ 31) \<le> x \<Longrightarrow> x < 2 ^ 31 \<Longrightarrow> to_int32 x = x"
  by (simp add: to_int32_def)

lemma read_event_whole: "event_at buf off = Some ev \<Longrightarrow> read_event e buf off = ev"
  by (simp add: read_event_def)

lemma advanced_frame:
  "imask (advanced st ev) = imask st" "buffer (advanced st ev) = buffer st"
  "watches (advanced st ev) = watches st" "trace (advanced st ev) = trace st"
  "clock_reads (advanced st ev) = clock_reads st" "logged (advanced st ev) = logged st"
  by (simp_all add: advanced_def Let_def)

lemma quiet_advanced: "quiet st (advanced st ev)"
  by (simp add: quiet_def advanced_frame)

lemma handle_event_cases [consumes 0, case_names incomplete unknown failed rest]:
  obtains
    ev where "ev = read_event e (buffer st) (bytes_handled st)"
      "bytes_in_buffer st < to_int32 (bytes_handled st + record_size ev)"
      "handle_event e st =
         (Inl (SystemError EINVAL),
          log (st\<lparr>bytes_handled := to_int32 (bytes_handled st + record_size ev)\<rparr>)
            ErrIncompleteEvent)"
  | ev where "ev = read_event e (buffer st) (bytes_handled st)"
      "to_int32 (bytes_handled st + record_size ev) \<le> bytes_in_buffer st"
      "find_watch (watches st) (wd ev) = None"
      "handle_event e st =
         (Inl (SystemError EINVAL), log (advanced st ev) (ErrUnknownWd (wd ev)))"
  | ev watch err st3 where "ev = read_event e (buffer st) (bytes_handled st)"
      "to_int32 (bytes_handled st + record_size ev) \<le> bytes_in_buffer st"
      "find_watch (watches st) (wd ev) = Some watch"
      "handle_subdir e (advanced st ev) watch ev = (Inl err, st3)"
      "handle_event e st = (Inl err, st3)"
  | ev watch u st3 where "ev = read_event e (buffer st) (bytes_handled st)"
      "to_int32 (bytes_handled st + record_size ev) \<le> bytes_in_buffer st"
      "find_watch (watches st) (wd ev) = Some watch"
      "handle_subdir e (advanced st ev) watch ev = (Inr u, st3)"
      "handle_event e st = handle_rest e st3 (bytes_handled st) (wd ev)"
proof -
  let ?ev = "read_event e (buffer st) (bytes_handled st)"
  let ?c = "to_int32 (bytes_handled st + (sizeof_event + int (len ?ev)))"
  show ?thesis
  proof (cases "bytes_in_buffer st < ?c")
    case True
    then have "handle_event e st =
         (Inl (SystemError EINVAL), log (st\<lparr>bytes_handled := ?c\<rparr>) ErrIncompleteEvent)"
      by (simp add: handle_event_def Let_def record_size_def)
    with True show ?thesis using that(1) [of ?ev] by (simp add: record_size_def)
  next
    case False
    then have fr: "?c \<le> bytes_in_buffer st" by simp
    have h: "handle_event e st =
        (case find_watch (watches (advanced st ?ev)) (wd ?ev) of
           None \<Rightarrow> (Inl (SystemError EINVAL), log (advanced st ?ev) (ErrUnknownWd (wd ?ev)))
         | Some watch \<Rightarrow>
             (case handle_subdir e (advanced st ?ev) watch ?ev of
                (Inl err, st3) \<Rightarrow> (Inl err, st3)
              | (Inr _, st3) \<Rightarrow> handle_rest e st3 (bytes_handled st) (wd ?ev)))"
    proof (cases "bytes_in_buffer st = ?c")
      case True
      then have a: "advanced st ?ev = st\<lparr>bytes_in_buffer := 0, bytes_handled := 0\<rparr>"
        by (simp add: advanced_def Let_def record_size_def)
      show ?thesis
        unfolding a using True
        by (simp add: handle_event_def Let_def record_size_def)
    next
      case ne: False
      then have a: "advanced st ?ev = st\<lparr>bytes_handled := ?c\<rparr>"
        using False by (simp add: advanced_def Let_def record_size_def)
      show ?thesis
        unfolding a using False ne
        by (simp add: handle_event_def Let_def record_size_def)
    qed
    show ?thesis
    proof (cases "find_watch (watches st) (wd ?ev)")
      case None
      then have "handle_event e st =
         (Inl (SystemError EINVAL), log (advanced st ?ev) (ErrUnknownWd (wd ?ev)))"
        using h by (simp add: advanced_frame)
      with fr None show ?thesis using that(2) [of ?ev] by (simp add: record_size_def)
    next
      case fw: (Some watch)
      obtain r st3 where hs: "handle_subdir e (advanced st ?ev) watch ?ev = (r, st3)"
        by (cases "handle_subdir e (advanced st ?ev) watch ?ev") auto
      show ?thesis
      proof (cases r)
        case (Inl err)
        then have "handle_event e st = (Inl err, st3)"
          using h fw hs by (simp add: advanced_frame)
        with fr fw hs Inl show ?thesis using that(3) [of ?ev watch err st3]
          by (simp add: record_size_def)
      next
        case (Inr u)
        then have "handle_event e st = handle_rest e st3 (bytes_handled st) (wd ?ev)"
          using h fw hs by (simp add: advanced_frame)
        with fr fw hs Inr show ?thesis using that(4) [of ?ev watch u st3]
          by (simp add: record_size_def)
      qed
    qed
  qed
qed

lemma handle_subdir_plain:
  "mask ev AND (IN_CREATE OR IN_MOVED_TO) = 0 \<Longrightarrow> handle_subdir e st watch ev = (Inr (), st)"
  by (simp add: handle_subdir_def)

lemma extends_add_watch: "extends st (snd (add_watch e st pth inmove))"
  unfolding add_watch_def using add_watch_in_extends [of st e pth] by simp

lemma quiet_handle_subdir: "quiet st (snd (handle_subdir e st watch ev))"
proof -
  let ?p = "path_join (path watch) (name ev)"
  let ?im = "mask ev AND IN_MOVED_TO \<noteq> 0"
  obtain r st1 where a: "add_watch e st ?p ?im = (r, st1)"
    by (cases "add_watch e st ?p ?im") auto
  have q: "quiet st st1"
    using extends_add_watch [of st e ?p ?im] a by (simp add: extends_quiet)
  then have "quiet st (st1\<lparr>watches := ws\<rparr>)" for ws
    by (simp add: quiet_def)
  then show ?thesis
    using a q by (auto simp: handle_subdir_def Let_def quiet_refl split: sum.splits option.splits)
qed

lemma no_new_flags_handle_subdir:
  assumes "mask ev AND IN_MOVED_TO = 0 \<or> mask ev AND IN_ISDIR = 0
           \<or> back_char e (path watch) = CHR ''/''"
  shows "no_new_flags st (snd (handle_subdir e st watch ev))"
proof (cases "mask ev AND (IN_CREATE OR IN_MOVED_TO) \<noteq> 0 \<and> mask ev AND IN_ISDIR \<noteq> 0
         \<and> back_char e (path watch) \<noteq> CHR ''/''")
  case False
  then have "handle_subdir e st watch ev = (Inr (), st)"
    by (auto simp: handle_subdir_def)
  then show ?thesis by (simp add: no_new_flags_refl)
next
  case True
  with assms have nm: "mask ev AND IN_MOVED_TO = 0" by auto
  let ?p = "path_join (path watch) (name ev)"
  obtain r st1 where a: "add_watch e st ?p False = (r, st1)"
    by (cases "add_watch e st ?p False") auto
  have "no_new_flags st st1"
    using extends_add_watch [of st e ?p False] a by (simp add: extends_no_new_flags)
  moreover have "snd (handle_subdir e st watch ev) = st1"
    using True nm a by (cases r) (simp_all add: handle_subdir_def)
  ultimately show ?thesis by simp
qed


lemma handle_subdir_keys:
  assumes "find_watch (watches st) k \<noteq> None"
  shows "find_watch (watches (snd (handle_subdir e st watch ev))) k \<noteq> None"
proof -
  let ?p = "path_join (path watch) (name ev)"
  let ?im = "mask ev AND IN_MOVED_TO \<noteq> 0"
  obtain r st1 where a: "add_watch e st ?p ?im = (r, st1)"
    by (cases "add_watch e st ?p ?im") auto
  have k1: "find_watch (watches st1) k \<noteq> None"
    using extends_add_watch [of st e ?p ?im] a assms extends_keys by fastforce
  then have "find_watch (update_watch (watches st1) w f) k \<noteq> None" for w f
    by (auto simp: find_watch_update_watch)
  then show ?thesis
    using a k1 assms
    by (auto simp: handle_subdir_def Let_def split: sum.splits option.splits)
qed

lemma handle_subdir_buffer_quiet: "imask (snd (handle_subdir e st watch ev)) = imask st"
  using quiet_handle_subdir [of st e watch ev] by (simp add: quiet_def)

lemma quiet_log: "quiet st (log st m)"
  by (simp add: quiet_def log_def)

lemma quiet_handle_event: "quiet st (snd (handle_event e st))"
proof (cases rule: handle_event_cases [where e = e and st = st])
  case (incomplete ev)
  then show ?thesis by (simp add: quiet_def log_def)
next
  case (unknown ev)
  then show ?thesis
    using quiet_trans [OF quiet_advanced quiet_log] by simp
next
  case (failed ev watch err st3)
  then show ?thesis
    using quiet_trans [OF quiet_advanced quiet_handle_subdir [of "advanced st ev" e watch ev]]
    by simp
next
  case (rest ev watch u st3)
  have "quiet st st3"
    using rest quiet_trans [OF quiet_advanced quiet_handle_subdir [of "advanced st ev" e watch ev]]
    by simp
  then show ?thesis
    using rest quiet_trans [OF _ quiet_handle_rest] by simp
qed

lemma no_new_flags_handle_event:
  assumes "\<not> moved_in_event e st"
  shows "no_new_flags st (snd (handle_event e st))"
proof (cases rule: handle_event_cases [where e = e and st = st])
  case (incomplete ev)
  then show ?thesis by (simp add: no_new_flags_def log_def)
next
  case (unknown ev)
  then show ?thesis by (simp add: no_new_flags_def log_def advanced_frame)
next
  case (failed ev watch err st3)
  have c: "mask ev AND IN_MOVED_TO = 0 \<or> mask ev AND IN_ISDIR = 0
           \<or> back_char e (path watch) = CHR ''/''"
    using assms failed(1,3) by (auto simp: moved_in_event_def Let_def)
  have "no_new_flags (advanced st ev) st3"
    using no_new_flags_handle_subdir [OF c, of "advanced st ev"] failed(4) by simp
  then show ?thesis
    using failed(5) by (simp add: no_new_flags_def advanced_frame)
next
  case (rest ev watch u st3)
  have c: "mask ev AND IN_MOVED_TO = 0 \<or> mask ev AND IN_ISDIR = 0
           \<or> back_char e (path watch) = CHR ''/''"
    using assms rest(1,3) by (auto simp: moved_in_event_def Let_def)
  have "no_new_flags (advanced st ev) st3"
    using no_new_flags_handle_subdir [OF c, of "advanced st ev"] rest(4) by simp
  then have "no_new_flags st st3"
    by (simp add: no_new_flags_def advanced_frame)
  then show ?thesis
    using rest(5) no_new_flags_trans [OF _ no_new_flags_handle_rest] by simp
qed

lemma handle_event_match:
  assumes "handle_event e st = (Inr (Some x), st')"
  shows "mask (read_event e (buffer st') x) AND imask st' \<noteq> 0"
proof (cases rule: handle_event_cases [where e = e and st = st])
  case (rest ev watch u st3)
  then show ?thesis
    using assms handle_rest_match [of e st3 "bytes_handled st" "wd ev" x st'] by simp
qed (use assms in simp_all)

lemma handle_event_erases:
  assumes "find_watch (watches st) k \<noteq> None"
    and "find_watch (watches (snd (handle_event e st))) k = None"
  shows "mask (read_event e (buffer (snd (handle_event e st))) (bytes_handled st)) AND IN_IGNORED \<noteq> 0
         \<and> wd (read_event e (buffer (snd (handle_event e st))) (bytes_handled st)) = k"
proof (cases rule: handle_event_cases [where e = e and st = st])
  case (incomplete ev)
  then show ?thesis using assms by (simp add: log_def)
next
  case (unknown ev)
  then show ?thesis using assms by (simp add: log_def advanced_frame)
next
  case (failed ev watch err st3)
  have "find_watch (watches st3) k \<noteq> None"
    using handle_subdir_keys [of "advanced st ev" k e watch ev] assms(1) failed(4)
    by (simp add: advanced_frame)
  then show ?thesis using assms(2) failed(5) by simp
next
  case (rest ev watch u st3)
  have k3: "find_watch (watches st3) k \<noteq> None"
    using handle_subdir_keys [of "advanced st ev" k e watch ev] assms(1) rest(4)
    by (simp add: advanced_frame)
  have b: "buffer (snd (handle_event e st)) = buffer st3"
    using rest(5) by (simp add: handle_rest_frame)
  show ?thesis
    unfolding b
    using handle_rest_erases [OF k3, of e "bytes_handled st" "wd ev"] assms(2) rest(5)
    by simp
qed

lemma handle_event_plain:
  assumes "event_at (buffer st) (bytes_handled st) = Some ev"
    and "0 \<le> bytes_handled st"
    and "bytes_handled st + record_size ev \<le> bytes_in_buffer st"
    and "bytes_in_buffer st \<le> sizeof_buffer"
    and "find_watch (watches st) (wd ev) = Some watch"
    and "mask ev AND (IN_CREATE OR IN_MOVED_TO) = 0"
  shows "handle_event e st = handle_rest e (advanced st ev) (bytes_handled st) (wd ev)"
proof -
  have r: "read_event e (buffer st) (bytes_handled st) = ev"
    using assms(1) by (rule read_event_whole)
  have c: "to_int32 (bytes_handled st + record_size ev) = bytes_handled st + record_size ev"
    using assms(2,3,4) record_size_pos [of ev]
    by (intro to_int32_id) (simp_all add: sizeof_buffer_def)
  show ?thesis
  proof (cases rule: handle_event_cases [where e = e and st = st])
    case (incomplete ev')
    then show ?thesis using assms r c by simp
  next
    case (unknown ev')
    then show ?thesis using assms r by simp
  next
    case (failed ev' watch' err st3)
    then show ?thesis using assms r by (simp add: handle_subdir_plain)
  next
    case (rest ev' watch' u st3)
    then show ?thesis using assms r by (simp add: handle_subdir_plain)
  qed
qed

lemma handle_event_self_move:
  assumes ev: "event_at (buffer st) (bytes_handled st) = Some ev"
    and nn: "0 \<le> bytes_handled st"
    and fr: "bytes_handled st + record_size ev \<le> bytes_in_buffer st"
    and cap: "bytes_in_buffer st \<le> sizeof_buffer"
    and sm: "self_move_event ev"
    and fw: "find_watch (watches st) (wd ev) = Some watch"
  shows "handle_event e st =
           (if mask ev AND imask st \<noteq> 0 then Inr (Some (bytes_handled st)) else Inr None,
            handle_move_self e (advanced st ev) (wd ev) (wd ev))"
proof -
  have "handle_event e st = handle_rest e (advanced st ev) (bytes_handled st) (wd ev)"
    using ev nn fr cap fw sm by (intro handle_event_plain) (simp_all add: self_move_event_def)
  moreover have "read_event e (buffer (advanced st ev)) (bytes_handled st) = ev"
    using ev by (simp add: advanced_frame read_event_whole)
  ultimately show ?thesis
    using sm by (simp add: handle_rest_cases self_move_event_def advanced_frame)
qed

lemma subtree_wds_iff:
  "k \<in> set (subtree_wds ws wp) \<longleftrightarrow> (\<exists>w. (k, w) \<in> set ws \<and> (\<exists>t. path w = wp @ t))"
  unfolding subtree_wds_def by (force simp: starts_with_prefix)

lemma mset_subtree_wds:
  "mset ws' = mset ws \<Longrightarrow> mset (subtree_wds ws' wp) = mset (subtree_wds ws wp)"
  unfolding subtree_wds_def
  by (metis mset_filter mset_map)

lemma handle_event_self_move_out:
  assumes "event_at (buffer st) (bytes_handled st) = Some ev"
    and "0 \<le> bytes_handled st"
    and "bytes_handled st + record_size ev \<le> bytes_in_buffer st"
    and "bytes_in_buffer st \<le> sizeof_buffer"
    and "self_move_event ev"
    and "find_watch (watches st) (wd ev) = Some watch"
    and "\<not> in_move watch"
  shows "handle_event e st =
           (if mask ev AND imask st \<noteq> 0 then Inr (Some (bytes_handled st)) else Inr None,
            if back_char e (path watch) = CHR ''/'' then rm_watch e (advanced st ev) (wd ev)
            else rm_subtree e (advanced st ev) (path watch) (table_order e (watches st)))"
  using handle_event_self_move [OF assms(1-6), of e] assms(6,7)
  by (simp add: handle_move_self_def advanced_frame)

lemma handle_event_self_move_kept:
  assumes "event_at (buffer st) (bytes_handled st) = Some ev"
    and "0 \<le> bytes_handled st"
    and "bytes_handled st + record_size ev \<le> bytes_in_buffer st"
    and "bytes_in_buffer st \<le> sizeof_buffer"
    and "self_move_event ev"
    and "find_watch (watches st) (wd ev) = Some watch"
    and "in_move watch"
  shows "handle_event e st =
           (if mask ev AND imask st \<noteq> 0 then Inr (Some (bytes_handled st)) else Inr None,
            (advanced st ev)\<lparr>watches :=
               update_watch (watches st) (wd ev) (\<lambda>x. x\<lparr>in_move := False\<rparr>)\<rparr>)"
  using handle_event_self_move [OF assms(1-6), of e] assms(6,7)
  by (simp add: handle_move_self_def advanced_frame)

lemma self_move_plain: "self_move_event \<lparr>wd = w, mask = IN_MOVE_SELF, cookie = 0, len = 0, name = []\<rparr>"
  by (simp add: self_move_event_def IN_MOVE_SELF_def IN_CREATE_def IN_MOVED_TO_def IN_IGNORED_def)

subsection \<open>Draining the buffer\<close>

lemma drain_quiet:
  assumes a: "drain e st = Some r"
  shows "quiet st (snd r)"
proof (rule drain.raw_induct [where P = "\<lambda>e st r. quiet st (snd r)", OF _ a])
  fix f e st r
  assume IH: "\<And>e st y. f e st = Some y \<Longrightarrow> quiet st (snd y)"
    and body: "(case handle_event e st of
                  (Inl err, st1) \<Rightarrow> Some (Inl err, st1)
                | (Inr None, st1) \<Rightarrow>
                    if 0 < bytes_handled st1 then f e st1 else Some (Inr None, st1)
                | (Inr (Some off), st1) \<Rightarrow> Some (Inr (Some off), st1)) = Some r"
  obtain r1 st1 where h: "handle_event e st = (r1, st1)"
    by (cases "handle_event e st") auto
  have q: "quiet st st1"
    using quiet_handle_event [of st e] h by simp
  show "quiet st (snd r)"
  proof (cases r1)
    case (Inl err)
    then show ?thesis using body h q by auto
  next
    case (Inr x)
    show ?thesis
    proof (cases x)
      case (Some off)
      then show ?thesis using body h q Inr by auto
    next
      case None
      show ?thesis
      proof (cases "0 < bytes_handled st1")
        case True
        then have "f e st1 = Some r"
          using body h Inr None by simp
        then have "quiet st1 (snd r)" by (rule IH)
        then show ?thesis using q quiet_trans by blast
      next
        case False
        then show ?thesis using body h q Inr None by auto
      qed
    qed
  qed
qed

lemma drain_match:
  assumes a: "drain e st = Some r"
  shows "fst r = Inr (Some x) \<longrightarrow> mask (read_event e (buffer (snd r)) x) AND imask (snd r) \<noteq> 0"
proof (rule drain.raw_induct
    [where P = "\<lambda>e st r. fst r = Inr (Some x) \<longrightarrow>
       mask (read_event e (buffer (snd r)) x) AND imask (snd r) \<noteq> 0", OF _ a], goal_cases)
  case (1 f e st r)
  obtain r1 st1 where h: "handle_event e st = (r1, st1)"
    by (cases "handle_event e st") auto
  show ?case
  proof (cases r1)
    case (Inl err)
    then show ?thesis using 1(2) h by auto
  next
    case (Inr y)
    show ?thesis
    proof (cases y)
      case (Some off)
      then have "r = (Inr (Some off), st1)" using 1(2) h Inr by simp
      then show ?thesis
        using h Inr Some handle_event_match [of e st off st1] by auto
    next
      case None
      show ?thesis
      proof (cases "0 < bytes_handled st1")
        case True
        then have "f e st1 = Some r"
          using 1(2) h Inr None by simp
        then show ?thesis by (rule 1(1))
      next
        case False
        then show ?thesis using 1(2) h Inr None by auto
      qed
    qed
  qed
qed

subsection \<open>The retry of \<^verbatim>\<open>read\<close>\<close>

lemma to_int32_range: "- (2 ^ 31) \<le> to_int32 x \<and> to_int32 x < 2 ^ 31"
  by (simp add: to_int32_def)

lemma read_unfold:
  "read e st timeout d =
     (case enter e st timeout d of
        (Return r, st1) \<Rightarrow> Some (r, st1)
      | (Continue, st1) \<Rightarrow>
          (case drain e st1 of
             None \<Rightarrow> None
           | Some (Inl err, st2) \<Rightarrow> Some (Inl err, st2)
           | Some (Inr (Some off), st2) \<Rightarrow> Some (Inr (Some off), st2)
           | Some (Inr None, st2) \<Rightarrow>
               if timeout < 0 then read e (tick st2) timeout d
               else if 0 < remaining e st st2 timeout
               then read e (tick st2) (remaining e st st2 timeout) d
               else Some (Inr None, tick st2)))"
  by (subst read.simps)
     (auto simp: Let_def enter_def remaining_def
        split: prod.splits flow.splits option.splits sum.splits)

lemma fill_cases [consumes 0, case_names timeout failed ready]:
  obtains "sys_poll e (length (trace st)) timeout = PollTimeout"
      "fill e st timeout d = (Return (Inr None), syscall st (SysPoll timeout))"
  | err st1 where "fill e st timeout d = (Return (Inl err), st1)"
      "imask st1 = imask st" "clock_reads st1 = clock_reads st"
      "\<exists>rest. trace st1 = trace st @ SysPoll timeout # rest
         \<and> (\<forall>t. SysPoll t \<notin> set rest)"
  | st1 where "fill e st timeout d = (Continue, st1)"
      "imask st1 = imask st" "clock_reads st1 = clock_reads st"
      "\<exists>rest. trace st1 = trace st @ SysPoll timeout # rest
         \<and> (\<forall>t. SysPoll t \<notin> set rest)"
proof (cases "sys_poll e (length (trace st)) timeout")
  case PollTimeout
  then have "fill e st timeout d = (Return (Inr None), syscall st (SysPoll timeout))"
    by (simp add: fill_def Let_def)
  with PollTimeout show ?thesis using that(1) by blast
next
  case (PollError errno)
  then have "fill e st timeout d =
      (Return (Inl (SystemError errno)),
       log (syscall st (SysPoll timeout)) (ErrSyscall ''poll()'' errno))"
    by (simp add: fill_def Let_def throw_sys_def)
  then show ?thesis
    using that(2) [of "SystemError errno"
        "log (syscall st (SysPoll timeout)) (ErrSyscall ''poll()'' errno)"]
    by (simp add: log_def syscall_def)
next
  case PollReady
  obtain r st1 where f: "fill e st timeout d = (r, st1)"
    by (cases "fill e st timeout d") auto
  have fr: "imask st1 = imask st \<and> clock_reads st1 = clock_reads st
      \<and> (\<exists>rest. trace st1 = trace st @ SysPoll timeout # rest \<and> (\<forall>t. SysPoll t \<notin> set rest))"
    using f PollReady
    by (auto simp: fill_def Let_def throw_sys_def log_def syscall_def
          split: prod.splits if_splits read_result.splits)
  have nr: "r \<noteq> Return (Inr None)"
    using f PollReady
    by (auto simp: fill_def Let_def throw_sys_def log_def syscall_def
          split: prod.splits if_splits read_result.splits)
  show ?thesis
  proof (cases r)
    case Continue
    then show ?thesis using f fr that(3) [of st1] by simp
  next
    case (Return x)
    then obtain err where "x = Inl err"
      using nr f PollReady
      by (auto simp: fill_def Let_def throw_sys_def log_def syscall_def
            split: prod.splits if_splits read_result.splits)
    then show ?thesis using Return f fr that(2) [of err st1] by simp
  qed
qed

lemma quiet_no_poll: "quiet a b \<Longrightarrow> SysPoll t \<in> set (trace b) \<Longrightarrow> SysPoll t \<in> set (trace a)"
  by (fastforce simp: quiet_def list_all_iff)

lemma enter_polls:
  assumes "enter e st timeout d = (fl, st1)"
  shows "clock_reads st1 = Suc (clock_reads st)
     \<and> (\<forall>t. SysPoll t \<in> set (trace st1) \<longrightarrow> SysPoll t \<in> set (trace st) \<or> t = timeout)
     \<and> (fl = Return (Inr None) \<longrightarrow> sys_poll e (length (trace st)) timeout = PollTimeout)"
proof (cases "bytes_in_buffer (tick st) = 0")
  case False
  then show ?thesis using assms by (auto simp: enter_def tick_def)
next
  case True
  then have f: "fill e (tick st) timeout d = (fl, st1)"
    using assms by (simp add: enter_def)
  show ?thesis
  proof (cases rule: fill_cases [where e = e and st = "tick st" and timeout = timeout and d = d])
    case timeout
    then show ?thesis using f by (auto simp: syscall_def tick_def)
  next
    case (failed err st1')
    then show ?thesis using f by (auto simp: tick_def)
  next
    case (ready st1')
    then show ?thesis using f by (auto simp: tick_def)
  qed
qed

lemma enter_trace:
  assumes "enter e st timeout d = (fl, st1)"
  shows "\<exists>rest. trace st1 = trace st @ rest \<and> (\<forall>t. SysPoll t \<in> set rest \<longrightarrow> t = timeout)"
proof (cases "bytes_in_buffer (tick st) = 0")
  case False
  then show ?thesis using assms by (auto simp: enter_def tick_def)
next
  case True
  then have f: "fill e (tick st) timeout d = (fl, st1)"
    using assms by (simp add: enter_def)
  show ?thesis
  proof (cases rule: fill_cases [where e = e and st = "tick st" and timeout = timeout and d = d])
    case timeout
    then show ?thesis using f by (auto simp: syscall_def tick_def)
  next
    case (failed err st1')
    then show ?thesis using f by (auto simp: tick_def)
  next
    case (ready st1')
    then show ?thesis using f by (auto simp: tick_def)
  qed
qed

lemma quiet_trace:
  "quiet a b \<Longrightarrow> \<exists>rest. trace b = trace a @ rest \<and> (\<forall>t. SysPoll t \<notin> set rest)"
  by (fastforce simp: quiet_def list_all_iff)

lemma read_polls:
  assumes a: "read e st timeout d = Some r"
  shows "\<exists>rest. trace (snd r) = trace st @ rest
     \<and> (timeout < 0 \<longrightarrow> (\<forall>t. SysPoll t \<in> set rest \<longrightarrow> t = timeout))
     \<and> (steady_clock e \<longrightarrow> 0 \<le> timeout \<longrightarrow> timeout < 2 ^ 31 \<longrightarrow>
          (\<forall>t. SysPoll t \<in> set rest \<longrightarrow> 0 \<le> t \<and> t \<le> timeout))"
proof (rule read.raw_induct
    [where P = "\<lambda>e st timeout d r. \<exists>rest. trace (snd r) = trace st @ rest
     \<and> (timeout < 0 \<longrightarrow> (\<forall>t. SysPoll t \<in> set rest \<longrightarrow> t = timeout))
     \<and> (steady_clock e \<longrightarrow> 0 \<le> timeout \<longrightarrow> timeout < 2 ^ 31 \<longrightarrow>
          (\<forall>t. SysPoll t \<in> set rest \<longrightarrow> 0 \<le> t \<and> t \<le> timeout))", OF _ a], goal_cases)
  case (1 f e st timeout d r)
  obtain fl st1 where en: "enter e st timeout d = (fl, st1)"
    by (cases "enter e st timeout d") auto
  note ep = enter_polls [OF en]
  from enter_trace [OF en] obtain rest1
    where r1: "trace st1 = trace st @ rest1" "\<forall>t. SysPoll t \<in> set rest1 \<longrightarrow> t = timeout"
    by blast
  have body: "(case (fl, st1) of
        (Return r, st1) \<Rightarrow> Some (r, st1)
      | (Continue, st1) \<Rightarrow>
          (case drain e st1 of
             None \<Rightarrow> None
           | Some (Inl err, st2) \<Rightarrow> Some (Inl err, st2)
           | Some (Inr (Some off), st2) \<Rightarrow> Some (Inr (Some off), st2)
           | Some (Inr None, st2) \<Rightarrow>
               if timeout < 0 then f e (tick st2) timeout d
               else if 0 < remaining e st st2 timeout
               then f e (tick st2) (remaining e st st2 timeout) d
               else Some (Inr None, tick st2))) = Some r"
    using 1(2) en
    by (auto simp: Let_def enter_def remaining_def
          split: prod.splits flow.splits option.splits sum.splits if_splits)
  let ?good = "\<lambda>rest. (timeout < 0 \<longrightarrow> (\<forall>t. SysPoll t \<in> set rest \<longrightarrow> t = timeout))
     \<and> (steady_clock e \<longrightarrow> 0 \<le> timeout \<longrightarrow> timeout < 2 ^ 31 \<longrightarrow>
          (\<forall>t. SysPoll t \<in> set rest \<longrightarrow> 0 \<le> t \<and> t \<le> timeout))"
  have g1: "?good rest1" using r1(2) by auto
  show ?case
  proof (cases fl)
    case (Return x)
    then have "r = (x, st1)" using body by simp
    then have "trace (snd r) = trace st @ rest1" using r1(1) by simp
    then have "trace (snd r) = trace st @ rest1 \<and> ?good rest1" using g1 by (rule conjI)
    then show ?thesis by (rule exI)
  next
    case Continue
    show ?thesis
    proof (cases "drain e st1")
      case None
      then show ?thesis using body Continue by simp
    next
      case (Some res)
      obtain r2 st2 where res: "res = (r2, st2)" by (cases res) auto
      have q: "quiet st1 st2"
        using drain_quiet [OF Some] res by simp
      from quiet_trace [OF q] obtain rest2
        where r2: "trace st2 = trace st1 @ rest2" "\<forall>t. SysPoll t \<notin> set rest2" by blast
      have t2: "trace st2 = trace st @ (rest1 @ rest2)" using r1(1) r2(1) by simp
      have "\<forall>t. SysPoll t \<in> set (rest1 @ rest2) \<longrightarrow> SysPoll t \<in> set rest1"
        using r2(2) by auto
      then have g2: "?good (rest1 @ rest2)" using g1 by blast
      have cr: "clock_reads st2 = Suc (clock_reads st)"
        using q ep by (simp add: quiet_def)
      show ?thesis
      proof (cases "r2 = Inr None")
        case False
        then have "r = (r2, st2)"
          using body Continue Some res
          by (cases r2) (auto split: option.splits)
        then have "trace (snd r) = trace st @ (rest1 @ rest2)" using t2 by simp
        then have "trace (snd r) = trace st @ (rest1 @ rest2) \<and> ?good (rest1 @ rest2)"
          using g2 by (rule conjI)
        then show ?thesis by (rule exI)
      next
        case True
        show ?thesis
        proof (cases "timeout < 0")
          case neg: True
          then have rec: "f e (tick st2) timeout d = Some r"
            using body Continue Some res True by simp
          from 1(1) [OF rec] obtain rest3
            where r3: "trace (snd r) = trace (tick st2) @ rest3"
              "\<forall>t. SysPoll t \<in> set rest3 \<longrightarrow> t = timeout"
            using neg by blast
          have t3: "trace (snd r) = trace st @ (rest1 @ rest2 @ rest3)"
            using r3(1) t2 by (simp add: tick_def)
          have "\<forall>t. SysPoll t \<in> set (rest1 @ rest2 @ rest3) \<longrightarrow> t = timeout"
            using r1(2) r2(2) r3(2) by auto
          then have "?good (rest1 @ rest2 @ rest3)"
            using neg by simp
          with t3 have "trace (snd r) = trace st @ (rest1 @ rest2 @ rest3)
               \<and> ?good (rest1 @ rest2 @ rest3)" by (rule conjI)
          then show ?thesis by (rule exI)
        next
          case nonneg: False
          show ?thesis
          proof (cases "0 < remaining e st st2 timeout")
            case False
            then have "r = (Inr None, tick st2)"
              using body Continue Some res True nonneg by simp
            then have "trace (snd r) = trace st @ (rest1 @ rest2)"
              using t2 by (simp add: tick_def)
            then have "trace (snd r) = trace st @ (rest1 @ rest2) \<and> ?good (rest1 @ rest2)"
              using g2 by (rule conjI)
            then show ?thesis by (rule exI)
          next
            case pos: True
            then have rec: "f e (tick st2) (remaining e st st2 timeout) d = Some r"
              using body Continue Some res True nonneg by simp
            from 1(1) [OF rec] obtain rest3
              where r3: "trace (snd r) = trace (tick st2) @ rest3"
                "steady_clock e \<longrightarrow> 0 \<le> remaining e st st2 timeout \<longrightarrow>
                   remaining e st st2 timeout < 2 ^ 31 \<longrightarrow>
                   (\<forall>t. SysPoll t \<in> set rest3 \<longrightarrow>
                      0 \<le> t \<and> t \<le> remaining e st st2 timeout)"
              by blast
            have t3: "trace (snd r) = trace st @ (rest1 @ rest2 @ rest3)"
              using r3(1) t2 by (simp add: tick_def)
            have "\<forall>t. SysPoll t \<in> set (rest1 @ rest2 @ rest3) \<longrightarrow> 0 \<le> t \<and> t \<le> timeout"
              if sc: "steady_clock e" and tl: "timeout < 2 ^ 31"
            proof -
              have el: "0 \<le> elapsed_ms (clock_now e (clock_reads st))
                                         (clock_now e (clock_reads st2))"
                using sc cr by (simp add: steady_clock_def)
              have eu: "elapsed_ms (clock_now e (clock_reads st))
                                   (clock_now e (clock_reads st2)) < 2 ^ 31"
                using to_int32_range by (simp add: elapsed_ms_def)
              have rem: "remaining e st st2 timeout = timeout -
                   elapsed_ms (clock_now e (clock_reads st)) (clock_now e (clock_reads st2))"
                unfolding remaining_def using nonneg tl el eu
                by (intro to_int32_id) simp_all
              have ru: "remaining e st st2 timeout < 2 ^ 31"
                using rem tl el by linarith
              have rl: "0 \<le> remaining e st st2 timeout"
                using pos by linarith
              have le: "remaining e st st2 timeout \<le> timeout"
                using rem el by linarith
              have b3: "\<forall>t. SysPoll t \<in> set rest3 \<longrightarrow>
                      0 \<le> t \<and> t \<le> remaining e st st2 timeout"
                using r3(2) sc rl ru by blast
              show ?thesis
              proof (intro allI impI)
                fix t
                assume "SysPoll t \<in> set (rest1 @ rest2 @ rest3)"
                then consider "SysPoll t \<in> set rest1" | "SysPoll t \<in> set rest3"
                  using r2(2) by auto
                then show "0 \<le> t \<and> t \<le> timeout"
                proof cases
                  case 1
                  then have "t = timeout" using r1(2) by blast
                  then show ?thesis using nonneg by linarith
                next
                  case 2
                  then have "0 \<le> t \<and> t \<le> remaining e st st2 timeout" using b3 by blast
                  then show ?thesis using le by linarith
                qed
              qed
            qed
            then have "?good (rest1 @ rest2 @ rest3)"
              using nonneg by simp
            with t3 have "trace (snd r) = trace st @ (rest1 @ rest2 @ rest3)
                 \<and> ?good (rest1 @ rest2 @ rest3)" by (rule conjI)
            then show ?thesis by (rule exI)
          qed
        qed
      qed
    qed
  qed
qed

lemma read_negative_null:
  assumes a: "read e st timeout d = Some r"
  shows "timeout < 0 \<longrightarrow> fst r = Inr None \<longrightarrow> (\<exists>n. sys_poll e n timeout = PollTimeout)"
proof (rule read.raw_induct
    [where P = "\<lambda>e st timeout d r. timeout < 0 \<longrightarrow> fst r = Inr None \<longrightarrow>
       (\<exists>n. sys_poll e n timeout = PollTimeout)", OF _ a], goal_cases)
  case (1 f e st timeout d r)
  obtain fl st1 where en: "enter e st timeout d = (fl, st1)"
    by (cases "enter e st timeout d") auto
  note ep = enter_polls [OF en]
  have body: "(case (fl, st1) of
        (Return r, st1) \<Rightarrow> Some (r, st1)
      | (Continue, st1) \<Rightarrow>
          (case drain e st1 of
             None \<Rightarrow> None
           | Some (Inl err, st2) \<Rightarrow> Some (Inl err, st2)
           | Some (Inr (Some off), st2) \<Rightarrow> Some (Inr (Some off), st2)
           | Some (Inr None, st2) \<Rightarrow>
               if timeout < 0 then f e (tick st2) timeout d
               else if 0 < remaining e st st2 timeout
               then f e (tick st2) (remaining e st st2 timeout) d
               else Some (Inr None, tick st2))) = Some r"
    using 1(2) en
    by (auto simp: Let_def enter_def remaining_def
          split: prod.splits flow.splits option.splits sum.splits if_splits)
  show ?case
  proof (intro impI)
    assume neg: "timeout < 0" and nul: "fst r = Inr None"
    show "\<exists>n. sys_poll e n timeout = PollTimeout"
    proof (cases fl)
      case (Return x)
      then have "fl = Return (Inr None)" using body nul by auto
      then show ?thesis using ep by blast
    next
      case Continue
      show ?thesis
      proof (cases "drain e st1")
        case None
        then show ?thesis using body Continue by simp
      next
        case (Some res)
        obtain r2 st2 where res: "res = (r2, st2)" by (cases res) auto
        show ?thesis
        proof (cases "r2 = Inr None")
          case False
          then have "r = (r2, st2)"
            using body Continue Some res
            by (cases r2) (auto split: option.splits)
          then show ?thesis using nul False by simp
        next
          case True
          then have "f e (tick st2) timeout d = Some r"
            using body Continue Some res neg by simp
          from 1(1) [OF this] neg nul show ?thesis by simp
        qed
      qed
    qed
  qed
qed

lemma enter_null:
  assumes "enter e st timeout d = (Return (Inr None), st1)"
  shows "sys_poll e (length (trace st)) timeout = PollTimeout
     \<and> st1 = syscall (tick st) (SysPoll timeout)"
proof (cases "bytes_in_buffer (tick st) = 0")
  case False
  then show ?thesis using assms by (simp add: enter_def)
next
  case True
  then have f: "fill e (tick st) timeout d = (Return (Inr None), st1)"
    using assms by (simp add: enter_def)
  show ?thesis
  proof (cases rule: fill_cases [where e = e and st = "tick st" and timeout = timeout and d = d])
    case timeout
    then show ?thesis using f by (simp add: tick_def)
  next
    case (failed err st1')
    then show ?thesis using f by simp
  next
    case (ready st1')
    then show ?thesis using f by simp
  qed
qed

lemma read_null_cumulative:
  assumes a: "read e st timeout d = Some r"
  shows "steady_clock e \<longrightarrow> 0 \<le> timeout \<longrightarrow> timeout < 2 ^ 31 \<longrightarrow> fst r = Inr None \<longrightarrow>
     (\<exists>k. (0 < k \<and> clock_reads (snd r) = clock_reads st + 2 * k
              \<and> timeout \<le> spent e (clock_reads st) k)
          \<or> (clock_reads (snd r) = clock_reads st + 2 * k + 1
              \<and> spent e (clock_reads st) k \<le> timeout
              \<and> (\<exists>pre. trace (snd r) = pre @ [SysPoll (timeout - spent e (clock_reads st) k)]
                   \<and> sys_poll e (length pre) (timeout - spent e (clock_reads st) k)
                       = PollTimeout)))"
proof (rule read.raw_induct
    [where P = "\<lambda>e st timeout d r.
       steady_clock e \<longrightarrow> 0 \<le> timeout \<longrightarrow> timeout < 2 ^ 31 \<longrightarrow> fst r = Inr None \<longrightarrow>
     (\<exists>k. (0 < k \<and> clock_reads (snd r) = clock_reads st + 2 * k
              \<and> timeout \<le> spent e (clock_reads st) k)
          \<or> (clock_reads (snd r) = clock_reads st + 2 * k + 1
              \<and> spent e (clock_reads st) k \<le> timeout
              \<and> (\<exists>pre. trace (snd r) = pre @ [SysPoll (timeout - spent e (clock_reads st) k)]
                   \<and> sys_poll e (length pre) (timeout - spent e (clock_reads st) k)
                       = PollTimeout)))", OF _ a], goal_cases)
  case (1 f e st timeout d r)
  let ?c = "clock_reads st"
  let ?Q = "\<lambda>c timeout k. (0 < k \<and> clock_reads (snd r) = c + 2 * k \<and> timeout \<le> spent e c k)
          \<or> (clock_reads (snd r) = c + 2 * k + 1
              \<and> spent e c k \<le> timeout
              \<and> (\<exists>pre. trace (snd r) = pre @ [SysPoll (timeout - spent e c k)]
                   \<and> sys_poll e (length pre) (timeout - spent e c k) = PollTimeout))"
  obtain fl st1 where en: "enter e st timeout d = (fl, st1)"
    by (cases "enter e st timeout d") auto
  note ep = enter_polls [OF en]
  have body: "(case (fl, st1) of
        (Return r, st1) \<Rightarrow> Some (r, st1)
      | (Continue, st1) \<Rightarrow>
          (case drain e st1 of
             None \<Rightarrow> None
           | Some (Inl err, st2) \<Rightarrow> Some (Inl err, st2)
           | Some (Inr (Some off), st2) \<Rightarrow> Some (Inr (Some off), st2)
           | Some (Inr None, st2) \<Rightarrow>
               if timeout < 0 then f e (tick st2) timeout d
               else if 0 < remaining e st st2 timeout
               then f e (tick st2) (remaining e st st2 timeout) d
               else Some (Inr None, tick st2))) = Some r"
    using 1(2) en
    by (auto simp: Let_def enter_def remaining_def
          split: prod.splits flow.splits option.splits sum.splits if_splits)
  show ?case
  proof (intro impI)
    assume sc: "steady_clock e" and t0: "0 \<le> timeout" and t1: "timeout < 2 ^ 31"
      and nul: "fst r = Inr None"
    have "\<exists>k. ?Q ?c timeout k"
    proof (cases fl)
      case (Return x)
      then have rx: "r = (x, st1)" using body by simp
      then have "x = Inr None" using nul by simp
      then have "enter e st timeout d = (Return (Inr None), st1)" using en Return by simp
      from enter_null [OF this]
      have p: "sys_poll e (length (trace st)) timeout = PollTimeout"
        and s: "st1 = syscall (tick st) (SysPoll timeout)" by simp_all
      have "clock_reads (snd r) = ?c + 2 * 0 + 1"
        using rx s by (simp add: syscall_def tick_def)
      moreover have "trace (snd r) = trace st @ [SysPoll (timeout - spent e ?c 0)]"
        using rx s by (simp add: syscall_def tick_def)
      moreover have "sys_poll e (length (trace st)) (timeout - spent e ?c 0) = PollTimeout"
        using p by simp
      moreover have "spent e ?c 0 \<le> timeout" using t0 by simp
      ultimately have "?Q ?c timeout 0" by blast
      then show ?thesis by (rule exI)
    next
      case Continue
      show ?thesis
      proof (cases "drain e st1")
        case None
        then show ?thesis using body Continue by simp
      next
        case (Some res)
        obtain r2 st2 where res: "res = (r2, st2)" by (cases res) auto
        have q: "quiet st1 st2"
          using drain_quiet [OF Some] res by simp
        have cr: "clock_reads st2 = Suc ?c"
          using q ep by (simp add: quiet_def)
        show ?thesis
        proof (cases "r2 = Inr None")
          case False
          then have "r = (r2, st2)"
            using body Continue Some res
            by (cases r2) (auto split: option.splits)
          then show ?thesis using nul False by simp
        next
          case True
          let ?el = "elapsed_ms (clock_now e ?c) (clock_now e (Suc ?c))"
          have el: "0 \<le> ?el"
            using sc by (simp add: steady_clock_def)
          have eu: "?el < 2 ^ 31"
            using to_int32_range by (simp add: elapsed_ms_def)
          have rem: "remaining e st st2 timeout = timeout - ?el"
            unfolding remaining_def cr using t0 t1 el eu by (intro to_int32_id) simp_all
          have sp: "spent e ?c (Suc k) = ?el + spent e (Suc (Suc ?c)) k" for k
            by simp
          show ?thesis
          proof (cases "0 < remaining e st st2 timeout")
            case False
            then have "r = (Inr None, tick st2)"
              using body Continue Some res True t0 by simp
            then have "clock_reads (snd r) = ?c + 2 * 1"
              using cr by (simp add: tick_def)
            moreover have "timeout \<le> spent e ?c 1"
              using False rem by simp
            ultimately have "?Q ?c timeout 1" by simp
            then show ?thesis by (rule exI)
          next
            case pos: True
            then have rec: "f e (tick st2) (remaining e st st2 timeout) d = Some r"
              using body Continue Some res True t0 by simp
            have ru: "remaining e st st2 timeout < 2 ^ 31"
              using rem t1 el by linarith
            have rl: "0 \<le> remaining e st st2 timeout"
              using pos by linarith
            have c2: "clock_reads (tick st2) = Suc (Suc ?c)"
              using cr by (simp add: tick_def)
            from 1(1) [OF rec] sc rl ru nul
            obtain k where k: "?Q (Suc (Suc ?c)) (timeout - ?el) k"
              unfolding c2 rem by blast
            have e1: "timeout - ?el - spent e (Suc (Suc ?c)) k = timeout - spent e ?c (Suc k)"
              unfolding sp by simp
            have e2: "(timeout - ?el \<le> spent e (Suc (Suc ?c)) k)
                    = (timeout \<le> spent e ?c (Suc k))"
              unfolding sp by linarith
            have e3: "(spent e (Suc (Suc ?c)) k \<le> timeout - ?el)
                    = (spent e ?c (Suc k) \<le> timeout)"
              unfolding sp by linarith
            have e4: "Suc (Suc ?c) + 2 * k = ?c + 2 * Suc k"
              "Suc (Suc ?c) + 2 * k + 1 = ?c + 2 * Suc k + 1"
              by simp_all
            have "?Q ?c timeout (Suc k)"
              using k unfolding e1 e2 e3 e4 by blast
            then show ?thesis by (rule exI)
          qed
        qed
      qed
    qed
    then show "\<exists>k. (0 < k \<and> clock_reads (snd r) = clock_reads st + 2 * k
              \<and> timeout \<le> spent e (clock_reads st) k)
          \<or> (clock_reads (snd r) = clock_reads st + 2 * k + 1
              \<and> spent e (clock_reads st) k \<le> timeout
              \<and> (\<exists>pre. trace (snd r) = pre @ [SysPoll (timeout - spent e (clock_reads st) k)]
                   \<and> sys_poll e (length pre) (timeout - spent e (clock_reads st) k)
                       = PollTimeout))" .
  qed
qed

subsection \<open>The registration mask\<close>

text \<open>Counterexample to C7 as stated: on a shallow watch with the interest mask
  \<^verbatim>\<open>IN_MODIFY\<close> the kernel is given \<^verbatim>\<open>IN_MODIFY | IN_ONLYDIR | IN_MOVE_SELF\<close>; neither \<^verbatim>\<open>IN_DELETE_SELF\<close> nor
  \<^verbatim>\<open>IN_IGNORED\<close> (the bits that tell of a deleted watch) is in the mask.\<close>

theorem registration_mask_lacks_deleted_bits:
  "trace (snd (add_watch ex_env (ex_state 2) ''/a/'' True)) = [SysAddWatch ''/a/'' 0x1000802]
   \<and> (0x1000802 :: u32) AND IN_DELETE_SELF = 0 \<and> (0x1000802 :: u32) AND IN_IGNORED = 0"
  by code_simp

text \<open>C7 (amended): every call of \<^verbatim>\<open>add_watch\<close> first registers the path with the kernel, and
  the mask it passes is the interest mask of the instance together with \<^verbatim>\<open>IN_ONLYDIR\<close> and
  \<^verbatim>\<open>IN_MOVE_SELF\<close>, and together with \<^verbatim>\<open>IN_CREATE | IN_MOVED_TO\<close> exactly when the path is
  recursive; a non-empty path is recursive exactly when it does not end with a slash.\<close>

theorem add_watch_registration_mask:
  "(\<exists>rest. trace (snd (add_watch e st pth inmove)) =
      trace st @ SysAddWatch pth
        (imask st OR IN_ONLYDIR OR IN_MOVE_SELF
           OR (if recursive e pth then IN_CREATE OR IN_MOVED_TO else 0)) # rest)
   \<and> (pth \<noteq> [] \<longrightarrow> recursive e pth = (last pth \<noteq> CHR ''/''))"
  using add_watch_trace_prefix [of e st pth inmove]
  by (simp add: watch_mask_def recursive_def back_char_def)

theorem add_watch_registration_mask_witness:
  "(\<exists>rest. trace (snd (add_watch ex_env (ex_state 2) ''/a'' True)) =
      trace (ex_state 2) @ SysAddWatch ''/a'' 0x1000982 # rest)
   \<and> ''/a'' \<noteq> [] \<and> recursive ex_env ''/a''"
proof -
  have m: "imask (ex_state 2) OR IN_ONLYDIR OR IN_MOVE_SELF OR (IN_CREATE OR IN_MOVED_TO)
             = (0x1000982 :: u32)"
    by code_simp
  have r: "recursive ex_env ''/a''"
    by code_simp
  show ?thesis
    using add_watch_registration_mask [of ex_env "ex_state 2" "''/a''" True] r m
    by simp
qed

subsection \<open>Paths that cannot be watched\<close>

text \<open>C9: when the kernel refuses the path (it is empty, not a directory, missing or
  unreadable, so that \<^verbatim>\<open>inotify_add_watch\<close> returns -1), \<^verbatim>\<open>add_watch\<close> logs one warning and
  returns -1 without an exception; the watch table, the event buffer and its two counters
  stay as they were.\<close>

theorem add_watch_unwatchable:
  assumes "inotify_add_watch e pth (watch_mask (imask st) (recursive e pth)) = (-1, errno)"
  shows "add_watch e st pth inmove =
           (Inr (-1),
            st\<lparr>trace := trace st @ [SysAddWatch pth (watch_mask (imask st) (recursive e pth))],
               logged := logged st @ [WarnCannotWatch pth errno]\<rparr>)"
  unfolding add_watch_def
  using add_watch_in_early [OF register_watch_failure [OF assms]]
  by (simp add: log_def syscall_def)

theorem add_watch_unwatchable_witness:
  "inotify_add_watch ex_env [] (watch_mask (imask (ex_state 0xfff)) (recursive ex_env [])) = (-1, 2)
   \<and> add_watch ex_env (ex_state 0xfff) [] False =
       (Inr (-1),
        (ex_state 0xfff)\<lparr>trace := trace (ex_state 0xfff) @
             [SysAddWatch [] (watch_mask (imask (ex_state 0xfff)) (recursive ex_env []))],
           logged := logged (ex_state 0xfff) @ [WarnCannotWatch [] 2]\<rparr>)"
proof -
  have h: "inotify_add_watch ex_env []
             (watch_mask (imask (ex_state 0xfff)) (recursive ex_env [])) = (-1, 2)"
    by (simp add: ex_env_def)
  show ?thesis
    using h add_watch_unwatchable [OF h, of False] by simp
qed

subsection \<open>Adding a watched path again\<close>

text \<open>C2: when the kernel answers with an identifier that the table already holds, and the
  path is the stored path or the stored path followed by one slash, \<^verbatim>\<open>add_watch\<close> returns
  that identifier and changes nothing: table, buffer, counters and log are as before, and
  the only system call is the registration itself (no descent, no synthesized record).\<close>

theorem add_watch_idempotent:
  assumes "inotify_add_watch e pth (watch_mask (imask st) (recursive e pth)) = (w, errno)"
    and "w \<noteq> -1"
    and "find_watch (watches st) w = Some w0"
    and "pth = path w0 \<or> pth = path w0 @ ''/''"
  shows "add_watch e st pth inmove =
           (Inr w, st\<lparr>trace := trace st @ [SysAddWatch pth (watch_mask (imask st) (recursive e pth))]\<rparr>)"
  unfolding add_watch_def
  using add_watch_in_early [OF register_watch_duplicate [OF assms]]
  by (simp add: syscall_def)

theorem add_watch_idempotent_witness:
  "inotify_add_watch ex_env ''/a/''
       (watch_mask (imask ex_watched) (recursive ex_env ''/a/'')) = (1, 0)
   \<and> (1 :: int) \<noteq> -1
   \<and> find_watch (watches ex_watched) 1 = Some \<lparr>path = ''/a'', in_move = False\<rparr>
   \<and> add_watch ex_env ex_watched ''/a/'' False =
       (Inr 1, ex_watched\<lparr>trace := trace ex_watched @
          [SysAddWatch ''/a/'' (watch_mask (imask ex_watched) (recursive ex_env ''/a/''))]\<rparr>)"
proof -
  have h1: "inotify_add_watch ex_env ''/a/''
              (watch_mask (imask ex_watched) (recursive ex_env ''/a/'')) = (1, 0)"
    by (simp add: ex_env_def)
  have h2: "(1 :: int) \<noteq> -1" by simp
  have h3: "find_watch (watches ex_watched) 1 = Some \<lparr>path = ''/a'', in_move = False\<rparr>"
    by (simp add: ex_watched_def find_watch_def)
  have h4: "''/a/'' = path \<lparr>path = ''/a'', in_move = False\<rparr>
            \<or> ''/a/'' = path \<lparr>path = ''/a'', in_move = False\<rparr> @ ''/''"
    by simp
  show ?thesis
    using h1 h2 h3 add_watch_idempotent [OF h1 h2 h3 h4, of False] by simp
qed

subsection \<open>Synthesized creation events\<close>

text \<open>Counterexample to C1 as stated: with the interest mask \<^verbatim>\<open>IN_MODIFY\<close>, a
  successful \<^verbatim>\<open>add_watch("/a/", false)\<close> on a directory that holds a regular file and a
  subdirectory writes no record at all (line 256 guards the synthesis).\<close>

theorem add_watch_shallow_uninterested_no_records:
  "directory_iterator ex_env ''/a/'' =
     Some [Dirent ''f'' regular None, Dirent ''d'' directory (Some []), Dirent ''p'' fifo None]
   \<and> add_watch ex_env (ex_state 2) ''/a/'' False =
     (Inr 1,
      \<lparr>imask = 2, watches = [(1, \<lparr>path = ''/a/'', in_move = False\<rparr>)], buffer = [],
       bytes_in_buffer = 0, bytes_handled = 0, trace = [SysAddWatch ''/a/'' 0x1000802],
       logged = [], clock_reads = 0\<rparr>)"
  by code_simp

text \<open>C1 (amended): when \<^verbatim>\<open>add_watch(path, false)\<close> registers the path, is not a duplicate of
  an entry, lists the directory, and the records fit the buffer, it returns the identifier
  and appends, from the old fill mark on and in directory order, one creation record for
  every child that is not a device, fifo or socket and that is \<open>reported\<close>: the interest mask
  has \<^verbatim>\<open>IN_CREATE\<close>, or the child is a directory and the path is recursive. Each record
  carries the identifier of the path, the child's name, cookie zero, and \<^verbatim>\<open>IN_ISDIR\<close> exactly
  for a directory.\<close>

theorem add_watch_synthesizes_created:
  assumes reg: "register_watch e st pth = (w, False, st1)"
    and ls: "directory_iterator e pth = Some ents"
    and nn: "0 \<le> bytes_in_buffer st"
    and fit: "bytes_in_buffer st
                + records_size (synth_records w (imask st) (recursive e pth) ents) \<le> sizeof_buffer"
  shows "fst (add_watch e st pth False) = Inr w
     \<and> bytes_in_buffer (snd (add_watch e st pth False)) =
         bytes_in_buffer st + records_size (synth_records w (imask st) (recursive e pth) ents)
     \<and> (\<forall>i < length (filter (reported (imask st) (recursive e pth)) ents).
          event_at (buffer (snd (add_watch e st pth False)))
            (bytes_in_buffer st
               + records_size (take i (synth_records w (imask st) (recursive e pth) ents))) =
          Some \<lparr>wd = w,
                mask = (if is_directory (d_type (filter (reported (imask st) (recursive e pth)) ents ! i))
                        then IN_ISDIR OR IN_CREATE else IN_CREATE),
                cookie = 0,
                len = name_len (d_name (filter (reported (imask st) (recursive e pth)) ents ! i)),
                name = d_name (filter (reported (imask st) (recursive e pth)) ents ! i)\<rparr>)"
proof -
  note fr = register_watch_frame_eq [OF reg]
  define recs where "recs = synth_records w (imask st) (recursive e pth) ents"
  define kids where "kids = filter (reported (imask st) (recursive e pth)) ents"
  have s: "synth_events st1 w (recursive e pth) ents =
             (Inr (), st1\<lparr>buffer := write_events (buffer st) (bytes_in_buffer st) recs,
                          bytes_in_buffer := bytes_in_buffer st + records_size recs\<rparr>)"
    using synth_events_fits [of st1 w "recursive e pth" ents] nn fit fr
    by (simp add: recs_def)
  have r: "add_watch e st pth False =
             (Inr w, st1\<lparr>buffer := write_events (buffer st) (bytes_in_buffer st) recs,
                          bytes_in_buffer := bytes_in_buffer st + records_size recs\<rparr>)"
    unfolding add_watch_def ls add_watch_in_synth [OF reg] s by simp
  have len: "length recs = length kids"
    by (simp add: recs_def kids_def synth_records_def)
  have nth: "recs ! i = created_event w (is_directory (d_type (kids ! i))) (d_name (kids ! i))"
    if "i < length kids" for i
    using that by (simp add: recs_def kids_def synth_records_def)
  have "event_at (write_events (buffer st) (bytes_in_buffer st) recs)
          (bytes_in_buffer st + records_size (take i recs)) =
        Some (created_event w (is_directory (d_type (kids ! i))) (d_name (kids ! i)))"
    if "i < length kids" for i
    using event_at_write_events [of i recs "buffer st" "bytes_in_buffer st"] that len nth
    by simp
  then show ?thesis
    using r by (simp add: recs_def [symmetric] kids_def [symmetric] created_event_def)
qed

theorem add_watch_synthesizes_created_witness:
  "register_watch ex_env (ex_state 0xfff) ''/a'' =
     (1, False,
      \<lparr>imask = 0xfff, watches = [(1, \<lparr>path = ''/a'', in_move = False\<rparr>)], buffer = [],
       bytes_in_buffer = 0, bytes_handled = 0, trace = [SysAddWatch ''/a'' 0x1000fff],
       logged = [], clock_reads = 0\<rparr>)
   \<and> directory_iterator ex_env ''/a'' =
       Some [Dirent ''f'' regular None, Dirent ''d'' directory (Some []), Dirent ''p'' fifo None]
   \<and> fst (add_watch ex_env (ex_state 0xfff) ''/a'' False) = Inr 1
   \<and> bytes_in_buffer (snd (add_watch ex_env (ex_state 0xfff) ''/a'' False)) = 40
   \<and> event_at (buffer (snd (add_watch ex_env (ex_state 0xfff) ''/a'' False))) 0 =
       Some \<lparr>wd = 1, mask = IN_CREATE, cookie = 0, len = 4, name = ''f''\<rparr>
   \<and> event_at (buffer (snd (add_watch ex_env (ex_state 0xfff) ''/a'' False))) 20 =
       Some \<lparr>wd = 1, mask = IN_ISDIR OR IN_CREATE, cookie = 0, len = 4, name = ''d''\<rparr>"
proof -
  let ?ents = "[Dirent ''f'' regular None, Dirent ''d'' directory (Some []), Dirent ''p'' fifo None]"
  have h1: "register_watch ex_env (ex_state 0xfff) ''/a'' =
     (1, False,
      \<lparr>imask = 0xfff, watches = [(1, \<lparr>path = ''/a'', in_move = False\<rparr>)], buffer = [],
       bytes_in_buffer = 0, bytes_handled = 0, trace = [SysAddWatch ''/a'' 0x1000fff],
       logged = [], clock_reads = 0\<rparr>)"
    by code_simp
  have h2: "directory_iterator ex_env ''/a'' = Some ?ents"
    by (simp add: ex_env_def ex_fs_def)
  have h3: "0 \<le> bytes_in_buffer (ex_state 0xfff)"
    by (simp add: ex_state_def)
  have m: "imask (ex_state 0xfff) AND IN_CREATE \<noteq> 0"
    by (simp add: ex_state_def IN_CREATE_def)
  have nl: "name_len ''f'' = 4" "name_len ''d'' = 4"
    by (simp_all add: name_len_def)
  have kids: "filter (reported (imask (ex_state 0xfff)) (recursive ex_env ''/a'')) ?ents =
                [Dirent ''f'' regular None, Dirent ''d'' directory (Some [])]"
    using m by (simp add: reported_def is_other_def fs_exists_def)
  have recs: "synth_records 1 (imask (ex_state 0xfff)) (recursive ex_env ''/a'') ?ents =
                [\<lparr>wd = 1, mask = IN_CREATE, cookie = 0, len = 4, name = ''f''\<rparr>,
                 \<lparr>wd = 1, mask = IN_ISDIR OR IN_CREATE, cookie = 0, len = 4, name = ''d''\<rparr>]"
    unfolding synth_records_def kids
    by (simp add: created_event_def is_directory_def nl)
  have h4: "bytes_in_buffer (ex_state 0xfff)
              + records_size (synth_records 1 (imask (ex_state 0xfff)) (recursive ex_env ''/a'') ?ents)
            \<le> sizeof_buffer"
    unfolding recs by (simp add: ex_state_def record_size_def sizeof_event_def sizeof_buffer_def)
  note t = add_watch_synthesizes_created [OF h1 h2 h3 h4, unfolded recs kids]
  from t have t0: "event_at (buffer (snd (add_watch ex_env (ex_state 0xfff) ''/a'' False))) 0 =
       Some \<lparr>wd = 1, mask = IN_CREATE, cookie = 0, len = 4, name = ''f''\<rparr>"
    by (simp add: ex_state_def is_directory_def nl All_less_Suc2 numeral_2_eq_2)
  from t have t1: "event_at (buffer (snd (add_watch ex_env (ex_state 0xfff) ''/a'' False))) 20 =
       Some \<lparr>wd = 1, mask = IN_ISDIR OR IN_CREATE, cookie = 0, len = 4, name = ''d''\<rparr>"
    by (simp add: ex_state_def is_directory_def nl All_less_Suc2 numeral_2_eq_2
          record_size_def sizeof_event_def)
  from t have t2: "fst (add_watch ex_env (ex_state 0xfff) ''/a'' False) = Inr 1
     \<and> bytes_in_buffer (snd (add_watch ex_env (ex_state 0xfff) ''/a'' False)) = 40"
    by (simp add: ex_state_def record_size_def sizeof_event_def)
  show ?thesis
    using h1 h2 t0 t1 t2 by simp
qed

subsection \<open>Overflow of the buffer during synthesis\<close>

text \<open>C8: when \<^verbatim>\<open>add_watch(path, false)\<close> gets as far as the synthesis (the path is registered
  and is not a duplicate, the directory is listed) and the records to write for the
  children need more bytes than the buffer has, the call throws
  \<^verbatim>\<open>std::system_error(EINVAL)\<close> after logging the overflow.\<close>

theorem add_watch_buffer_overflow:
  assumes reg: "register_watch e st pth = (w, False, st1)"
    and ls: "directory_iterator e pth = Some ents"
    and nn: "0 \<le> bytes_in_buffer st"
    and big: "sizeof_buffer < records_size (synth_records w (imask st) (recursive e pth) ents)"
  shows "fst (add_watch e st pth False) = Inl (SystemError EINVAL)
         \<and> ErrBufferUnderruns \<in> set (logged (snd (add_watch e st pth False)))"
proof -
  note fr = register_watch_frame_eq [OF reg]
  have ne: "synth_records w (imask st1) (recursive e pth) ents \<noteq> []"
    using big fr(1) by (auto simp: sizeof_buffer_def)
  have "fst (synth_events st1 w (recursive e pth) ents) = Inl (SystemError EINVAL)
        \<and> ErrBufferUnderruns \<in> set (logged (snd (synth_events st1 w (recursive e pth) ents)))"
    using nn big fr ne by (intro synth_events_overflow) simp_all
  then show ?thesis
    unfolding add_watch_def ls add_watch_in_synth [OF reg]
    by (cases "synth_events st1 w (recursive e pth) ents") auto
qed

theorem add_watch_buffer_overflow_witness:
  "register_watch ex_env (ex_state 0xfff) ''/big'' =
     (3, False,
      \<lparr>imask = 0xfff, watches = [(3, \<lparr>path = ''/big'', in_move = False\<rparr>)], buffer = [],
       bytes_in_buffer = 0, bytes_handled = 0, trace = [SysAddWatch ''/big'' 0x1000fff],
       logged = [], clock_reads = 0\<rparr>)
   \<and> directory_iterator ex_env ''/big'' = Some ex_big
   \<and> 0 \<le> bytes_in_buffer (ex_state 0xfff)
   \<and> sizeof_buffer
        < records_size (synth_records 3 (imask (ex_state 0xfff)) (recursive ex_env ''/big'') ex_big)
   \<and> fst (add_watch ex_env (ex_state 0xfff) ''/big'' False) = Inl (SystemError EINVAL)
   \<and> ErrBufferUnderruns \<in> set (logged (snd (add_watch ex_env (ex_state 0xfff) ''/big'' False)))"
proof -
  have h1: "register_watch ex_env (ex_state 0xfff) ''/big'' =
     (3, False,
      \<lparr>imask = 0xfff, watches = [(3, \<lparr>path = ''/big'', in_move = False\<rparr>)], buffer = [],
       bytes_in_buffer = 0, bytes_handled = 0, trace = [SysAddWatch ''/big'' 0x1000fff],
       logged = [], clock_reads = 0\<rparr>)"
    by code_simp
  have h2: "directory_iterator ex_env ''/big'' = Some ex_big"
    by (simp add: ex_env_def ex_fs_def)
  have h3: "0 \<le> bytes_in_buffer (ex_state 0xfff)"
    by (simp add: ex_state_def)
  have h4: "sizeof_buffer
        < records_size (synth_records 3 (imask (ex_state 0xfff)) (recursive ex_env ''/big'') ex_big)"
    by (simp add: ex_big_size sizeof_buffer_def)
  show ?thesis
    using h1 h2 h3 h4 add_watch_buffer_overflow [OF h1 h2 h3 h4] by simp
qed

subsection \<open>Silent backfill\<close>




subsection \<open>Self-move of a watch\<close>

text \<open>C3: when one round of the loop of \<^verbatim>\<open>read\<close> handles a whole self-move event whose watch
  is in the table with \<^verbatim>\<open>in_move\<close> false, the table is left as it is, and the system calls
  made are these: for a stored path ending with a slash one \<^verbatim>\<open>inotify_rm_watch\<close> for the
  watch of the event; otherwise one \<^verbatim>\<open>inotify_rm_watch\<close> for every table entry whose path
  starts with the stored path, the watch itself among them, in the order in which the
  table hands out its entries. An entry leaves the table only in a round whose event has
  \<^verbatim>\<open>IN_IGNORED\<close> and names it; such a round does erase it, and \<^verbatim>\<open>add_watch\<close> erases
  nothing.\<close>

theorem self_move_unregisters_subtree:
  "(event_at (buffer st) (bytes_handled st) = Some ev
      \<and> 0 \<le> bytes_handled st \<and> bytes_handled st + record_size ev \<le> bytes_in_buffer st
      \<and> bytes_in_buffer st \<le> sizeof_buffer
      \<and> self_move_event ev
      \<and> find_watch (watches st) (wd ev) = Some watch \<and> \<not> in_move watch
      \<and> mset (table_order e (watches st)) = mset (watches st)
    \<longrightarrow> watches (snd (handle_event e st)) = watches st
      \<and> (back_char e (path watch) = CHR ''/'' \<longrightarrow>
            trace (snd (handle_event e st)) = trace st @ [SysRmWatch (wd ev)])
      \<and> (back_char e (path watch) \<noteq> CHR ''/'' \<longrightarrow>
            (\<exists>ks. trace (snd (handle_event e st)) = trace st @ map SysRmWatch ks
                  \<and> mset ks = mset (subtree_wds (watches st) (path watch))))
      \<and> wd ev \<in> set (subtree_wds (watches st) (path watch))
      \<and> (\<forall>k. k \<in> set (subtree_wds (watches st) (path watch)) \<longleftrightarrow>
               (\<exists>w. (k, w) \<in> set (watches st) \<and> (\<exists>t. path w = path watch @ t)))
      \<and> fst (handle_event e st) =
          Inr (if mask ev AND imask st \<noteq> 0 then Some (bytes_handled st) else None))
   \<and> (find_watch (watches st) k \<noteq> None
        \<and> find_watch (watches (snd (handle_event e st))) k = None
      \<longrightarrow> mask (read_event e (buffer (snd (handle_event e st))) (bytes_handled st))
            AND IN_IGNORED \<noteq> 0
        \<and> wd (read_event e (buffer (snd (handle_event e st))) (bytes_handled st)) = k)
   \<and> (event_at (buffer st) (bytes_handled st) = Some ev
        \<and> 0 \<le> bytes_handled st \<and> bytes_handled st + record_size ev \<le> bytes_in_buffer st
        \<and> bytes_in_buffer st \<le> sizeof_buffer
        \<and> find_watch (watches st) (wd ev) = Some watch
        \<and> mask ev AND (IN_CREATE OR IN_MOVED_TO) = 0 \<and> mask ev AND IN_IGNORED \<noteq> 0
      \<longrightarrow> find_watch (watches (snd (handle_event e st))) (wd ev) = None)
   \<and> (find_watch (watches st) k \<noteq> None
      \<longrightarrow> find_watch (watches (snd (add_watch e st pth inmove))) k \<noteq> None)"
proof -
  have a: "watches (snd (handle_event e st)) = watches st
      \<and> (back_char e (path watch) = CHR ''/'' \<longrightarrow>
            trace (snd (handle_event e st)) = trace st @ [SysRmWatch (wd ev)])
      \<and> (back_char e (path watch) \<noteq> CHR ''/'' \<longrightarrow>
            (\<exists>ks. trace (snd (handle_event e st)) = trace st @ map SysRmWatch ks
                  \<and> mset ks = mset (subtree_wds (watches st) (path watch))))
      \<and> wd ev \<in> set (subtree_wds (watches st) (path watch))
      \<and> (\<forall>k. k \<in> set (subtree_wds (watches st) (path watch)) \<longleftrightarrow>
               (\<exists>w. (k, w) \<in> set (watches st) \<and> (\<exists>t. path w = path watch @ t)))
      \<and> fst (handle_event e st) =
          Inr (if mask ev AND imask st \<noteq> 0 then Some (bytes_handled st) else None)"
    if h: "event_at (buffer st) (bytes_handled st) = Some ev"
      "0 \<le> bytes_handled st" "bytes_handled st + record_size ev \<le> bytes_in_buffer st"
      "bytes_in_buffer st \<le> sizeof_buffer" "self_move_event ev"
      "find_watch (watches st) (wd ev) = Some watch" "\<not> in_move watch"
      and perm: "mset (table_order e (watches st)) = mset (watches st)"
  proof -
    note r = handle_event_self_move_out [OF h, of e]
    have w: "watches (snd (handle_event e st)) = watches st"
      unfolding r by (simp add: rm_watch_watches rm_subtree_watches advanced_frame)
    have t1: "trace (snd (handle_event e st)) = trace st @ [SysRmWatch (wd ev)]"
      if "back_char e (path watch) = CHR ''/''"
      unfolding r using that by (simp add: rm_watch_trace advanced_frame)
    have t2: "\<exists>ks. trace (snd (handle_event e st)) = trace st @ map SysRmWatch ks
                  \<and> mset ks = mset (subtree_wds (watches st) (path watch))"
      if "back_char e (path watch) \<noteq> CHR ''/''"
    proof -
      have "trace (snd (handle_event e st)) =
              trace st @ map SysRmWatch (subtree_wds (table_order e (watches st)) (path watch))"
        unfolding r using that by (simp add: rm_subtree_trace advanced_frame)
      moreover have "mset (subtree_wds (table_order e (watches st)) (path watch)) =
                     mset (subtree_wds (watches st) (path watch))"
        using perm by (rule mset_subtree_wds)
      ultimately show ?thesis by blast
    qed
    have f: "fst (handle_event e st) =
          Inr (if mask ev AND imask st \<noteq> 0 then Some (bytes_handled st) else None)"
      unfolding r by simp
    show ?thesis
      using w t1 t2 f find_watch_in_subtree [OF h(6)] subtree_wds_iff by blast
  qed
  have b: "mask (read_event e (buffer (snd (handle_event e st))) (bytes_handled st))
            AND IN_IGNORED \<noteq> 0
        \<and> wd (read_event e (buffer (snd (handle_event e st))) (bytes_handled st)) = k"
    if "find_watch (watches st) k \<noteq> None"
      "find_watch (watches (snd (handle_event e st))) k = None"
    using that by (rule handle_event_erases)
  have c: "find_watch (watches (snd (handle_event e st))) (wd ev) = None"
    if h: "event_at (buffer st) (bytes_handled st) = Some ev"
      "0 \<le> bytes_handled st" "bytes_handled st + record_size ev \<le> bytes_in_buffer st"
      "bytes_in_buffer st \<le> sizeof_buffer"
      "find_watch (watches st) (wd ev) = Some watch"
      "mask ev AND (IN_CREATE OR IN_MOVED_TO) = 0" and ig: "mask ev AND IN_IGNORED \<noteq> 0"
  proof -
    have p: "handle_event e st = handle_rest e (advanced st ev) (bytes_handled st) (wd ev)"
      using h by (rule handle_event_plain)
    have r: "read_event e (buffer (advanced st ev)) (bytes_handled st) = ev"
      using h(1) by (simp add: advanced_frame read_event_whole)
    show ?thesis
      unfolding p
      using handle_rest_ignored [of e "advanced st ev" "bytes_handled st" "wd ev"] ig r
      by simp
  qed
  have d: "find_watch (watches (snd (add_watch e st pth inmove))) k \<noteq> None"
    if "find_watch (watches st) k \<noteq> None"
    using extends_add_watch [of st e pth inmove] that extends_keys by blast
  show ?thesis
    using a b c d by blast
qed

theorem self_move_unregisters_subtree_witness:
  "event_at (buffer ex_moved_out) (bytes_handled ex_moved_out) =
     Some \<lparr>wd = 2, mask = IN_MOVE_SELF, cookie = 0, len = 0, name = []\<rparr>
   \<and> self_move_event \<lparr>wd = 2, mask = IN_MOVE_SELF, cookie = 0, len = 0, name = []\<rparr>
   \<and> find_watch (watches ex_moved_out) 2 = Some \<lparr>path = ''/a/d'', in_move = False\<rparr>
   \<and> mset (table_order ex_env (watches ex_moved_out)) = mset (watches ex_moved_out)
   \<and> watches (snd (handle_event ex_env ex_moved_out)) = watches ex_moved_out
   \<and> (\<exists>ks. trace (snd (handle_event ex_env ex_moved_out)) = map SysRmWatch ks
          \<and> mset ks = mset [2, 3])
   \<and> fst (handle_event ex_env ex_moved_out) = Inr (Some 0)
   \<and> find_watch (watches ex_gone) 3 \<noteq> None
   \<and> find_watch (watches (snd (handle_event ex_env ex_gone))) 3 = None
   \<and> mask (read_event ex_env (buffer (snd (handle_event ex_env ex_gone))) (bytes_handled ex_gone))
        AND IN_IGNORED \<noteq> 0"
proof -
  let ?ev = "\<lparr>wd = 2, mask = IN_MOVE_SELF, cookie = 0, len = 0, name = []\<rparr>"
  let ?w = "\<lparr>path = ''/a/d'', in_move = False\<rparr>"
  let ?ig = "\<lparr>wd = 3, mask = IN_IGNORED, cookie = 0, len = 0, name = []\<rparr>"
  let ?w3 = "\<lparr>path = ''/a/d/e'', in_move = False\<rparr>"
  have h1: "event_at (buffer ex_moved_out) (bytes_handled ex_moved_out) = Some ?ev"
    by (simp add: ex_moved_out_def event_at_def)
  have h2: "0 \<le> bytes_handled ex_moved_out
      \<and> bytes_handled ex_moved_out + record_size ?ev \<le> bytes_in_buffer ex_moved_out
      \<and> bytes_in_buffer ex_moved_out \<le> sizeof_buffer"
    by (simp add: ex_moved_out_def record_size_def sizeof_event_def sizeof_buffer_def)
  have h3: "self_move_event ?ev"
    by (rule self_move_plain)
  have h4: "find_watch (watches ex_moved_out) (wd ?ev) = Some ?w"
    by (simp add: ex_moved_out_def find_watch_def)
  have h5: "\<not> in_move ?w" by simp
  have h6: "mset (table_order ex_env (watches ex_moved_out)) = mset (watches ex_moved_out)"
    by (simp add: ex_env_def)
  have sub: "subtree_wds (watches ex_moved_out) ''/a/d'' = [2, 3]"
    by (simp add: ex_moved_out_def subtree_wds_def starts_with_def)
  have b: "back_char ex_env ''/a/d'' \<noteq> CHR ''/''"
    by (simp add: back_char_def)
  have m: "mask ?ev AND imask ex_moved_out \<noteq> 0"
    by (simp add: ex_moved_out_def IN_MOVE_SELF_def)
  note t = self_move_unregisters_subtree
             [where st = ex_moved_out and ev = ?ev and watch = ?w and e = ex_env]
  from t h1 h2 h3 h4 h5 h6
  have "watches (snd (handle_event ex_env ex_moved_out)) = watches ex_moved_out
      \<and> (back_char ex_env (path ?w) \<noteq> CHR ''/'' \<longrightarrow>
            (\<exists>ks. trace (snd (handle_event ex_env ex_moved_out))
                     = trace ex_moved_out @ map SysRmWatch ks
                  \<and> mset ks = mset (subtree_wds (watches ex_moved_out) (path ?w))))
      \<and> fst (handle_event ex_env ex_moved_out) =
          Inr (if mask ?ev AND imask ex_moved_out \<noteq> 0
               then Some (bytes_handled ex_moved_out) else None)"
    by simp
  then have p1: "watches (snd (handle_event ex_env ex_moved_out)) = watches ex_moved_out
     \<and> (\<exists>ks. trace (snd (handle_event ex_env ex_moved_out)) = map SysRmWatch ks
            \<and> mset ks = mset [2, 3])
     \<and> fst (handle_event ex_env ex_moved_out) = Inr (Some 0)"
    using sub b m by (simp add: ex_moved_out_def)
  have g1: "find_watch (watches ex_gone) 3 \<noteq> None"
    by (simp add: ex_gone_def find_watch_def)
  have g2: "find_watch (watches (snd (handle_event ex_env ex_gone))) 3 = None"
  proof -
    have e1: "event_at (buffer ex_gone) (bytes_handled ex_gone) = Some ?ig"
      by (simp add: ex_gone_def event_at_def)
    have e2: "0 \<le> bytes_handled ex_gone
      \<and> bytes_handled ex_gone + record_size ?ig \<le> bytes_in_buffer ex_gone
      \<and> bytes_in_buffer ex_gone \<le> sizeof_buffer"
      by (simp add: ex_gone_def record_size_def sizeof_event_def sizeof_buffer_def)
    have e3: "find_watch (watches ex_gone) (wd ?ig) = Some ?w3"
      by (simp add: ex_gone_def find_watch_def)
    have e4: "mask ?ig AND (IN_CREATE OR IN_MOVED_TO) = 0 \<and> mask ?ig AND IN_IGNORED \<noteq> 0"
      by (simp add: IN_IGNORED_def IN_CREATE_def IN_MOVED_TO_def)
    from self_move_unregisters_subtree
           [where st = ex_gone and ev = ?ig and watch = ?w3 and e = ex_env] e1 e2 e3 e4
    show ?thesis by simp
  qed
  from self_move_unregisters_subtree [where st = ex_gone and k = 3 and e = ex_env] g1 g2
  have g3: "mask (read_event ex_env (buffer (snd (handle_event ex_env ex_gone)))
              (bytes_handled ex_gone)) AND IN_IGNORED \<noteq> 0"
    by simp
  show ?thesis
    using h1 h3 h4 h6 p1 g1 g2 g3 by simp
qed

subsection \<open>The \<^verbatim>\<open>in_move\<close> flag\<close>

text \<open>C4: when a round of the loop of \<^verbatim>\<open>read\<close> handles a whole self-move event whose watch
  has its \<^verbatim>\<open>in_move\<close> flag raised, the flag is cleared, the entry and all other entries stay
  as they are, and nothing is unregistered. When the flag is down (as it is after that
  round), a self-move event for the watch unregisters it. Handling an event that is not a
  directory moved into a recursive watch never raises a flag, and neither does
  \<^verbatim>\<open>add_watch\<close>: a flag is raised only by the reconciliation of a moved-in directory and is
  up until the next self-move event of its watch.\<close>

theorem in_move_one_shot:
  "(event_at (buffer st) (bytes_handled st) = Some ev
      \<and> 0 \<le> bytes_handled st \<and> bytes_handled st + record_size ev \<le> bytes_in_buffer st
      \<and> bytes_in_buffer st \<le> sizeof_buffer
      \<and> self_move_event ev
      \<and> find_watch (watches st) (wd ev) = Some watch \<and> in_move watch
    \<longrightarrow> find_watch (watches (snd (handle_event e st))) (wd ev)
          = Some (watch\<lparr>in_move := False\<rparr>)
      \<and> (\<forall>k. k \<noteq> wd ev \<longrightarrow>
             find_watch (watches (snd (handle_event e st))) k = find_watch (watches st) k)
      \<and> trace (snd (handle_event e st)) = trace st
      \<and> fst (handle_event e st) =
          Inr (if mask ev AND imask st \<noteq> 0 then Some (bytes_handled st) else None))
   \<and> (event_at (buffer st) (bytes_handled st) = Some ev
      \<and> 0 \<le> bytes_handled st \<and> bytes_handled st + record_size ev \<le> bytes_in_buffer st
      \<and> bytes_in_buffer st \<le> sizeof_buffer
      \<and> self_move_event ev
      \<and> find_watch (watches st) (wd ev) = Some watch \<and> \<not> in_move watch
      \<and> set (table_order e (watches st)) = set (watches st)
    \<longrightarrow> (\<exists>rest. trace (snd (handle_event e st)) = trace st @ rest
                \<and> SysRmWatch (wd ev) \<in> set rest)
      \<and> find_watch (watches (snd (handle_event e st))) (wd ev) = Some watch)
   \<and> (\<not> moved_in_event e st \<longrightarrow> no_new_flags st (snd (handle_event e st)))
   \<and> no_new_flags st (snd (add_watch e st pth inmove))"
proof -
  have a: "find_watch (watches (snd (handle_event e st))) (wd ev)
          = Some (watch\<lparr>in_move := False\<rparr>)
      \<and> (\<forall>k. k \<noteq> wd ev \<longrightarrow>
             find_watch (watches (snd (handle_event e st))) k = find_watch (watches st) k)
      \<and> trace (snd (handle_event e st)) = trace st
      \<and> fst (handle_event e st) =
          Inr (if mask ev AND imask st \<noteq> 0 then Some (bytes_handled st) else None)"
    if h: "event_at (buffer st) (bytes_handled st) = Some ev"
      "0 \<le> bytes_handled st" "bytes_handled st + record_size ev \<le> bytes_in_buffer st"
      "bytes_in_buffer st \<le> sizeof_buffer" "self_move_event ev"
      "find_watch (watches st) (wd ev) = Some watch" "in_move watch"
  proof -
    note r = handle_event_self_move_kept [OF h, of e]
    show ?thesis
      unfolding r using h(6)
      by (simp add: find_watch_update_watch advanced_frame)
  qed
  have b: "(\<exists>rest. trace (snd (handle_event e st)) = trace st @ rest
                \<and> SysRmWatch (wd ev) \<in> set rest)
      \<and> find_watch (watches (snd (handle_event e st))) (wd ev) = Some watch"
    if h: "event_at (buffer st) (bytes_handled st) = Some ev"
      "0 \<le> bytes_handled st" "bytes_handled st + record_size ev \<le> bytes_in_buffer st"
      "bytes_in_buffer st \<le> sizeof_buffer" "self_move_event ev"
      "find_watch (watches st) (wd ev) = Some watch" "\<not> in_move watch"
      and perm: "set (table_order e (watches st)) = set (watches st)"
  proof -
    note r = handle_event_self_move_out [OF h, of e]
    have "(wd ev, watch) \<in> set (watches st)"
      using h(6) by (simp add: find_watch_def map_of_SomeD)
    then have "(wd ev, watch) \<in> set (table_order e (watches st))"
      using perm by simp
    then have "wd ev \<in> set (subtree_wds (table_order e (watches st)) (path watch))"
      using subtree_wds_iff by fastforce
    then have "SysRmWatch (wd ev) \<in>
        set (if back_char e (path watch) = CHR ''/'' then [SysRmWatch (wd ev)]
             else map SysRmWatch (subtree_wds (table_order e (watches st)) (path watch)))"
      by simp
    moreover have "trace (snd (handle_event e st)) =
        trace st @ (if back_char e (path watch) = CHR ''/'' then [SysRmWatch (wd ev)]
             else map SysRmWatch (subtree_wds (table_order e (watches st)) (path watch)))"
      unfolding r by (simp add: rm_watch_trace rm_subtree_trace advanced_frame)
    moreover have "find_watch (watches (snd (handle_event e st))) (wd ev) = Some watch"
      unfolding r using h(6)
      by (simp add: rm_watch_watches rm_subtree_watches advanced_frame)
    ultimately show ?thesis by metis
  qed
  have c: "no_new_flags st (snd (handle_event e st))" if "\<not> moved_in_event e st"
    using that by (rule no_new_flags_handle_event)
  have d: "no_new_flags st (snd (add_watch e st pth inmove))"
    using extends_add_watch by (rule extends_no_new_flags)
  show ?thesis
    using a b c d by blast
qed

theorem in_move_one_shot_witness:
  "event_at (buffer ex_moved) (bytes_handled ex_moved) =
     Some \<lparr>wd = 2, mask = IN_MOVE_SELF, cookie = 0, len = 0, name = []\<rparr>
   \<and> find_watch (watches ex_moved) 2 = Some \<lparr>path = ''/a/d'', in_move = True\<rparr>
   \<and> find_watch (watches (snd (handle_event ex_env ex_moved))) 2 =
       Some \<lparr>path = ''/a/d'', in_move = False\<rparr>
   \<and> trace (snd (handle_event ex_env ex_moved)) = []
   \<and> event_at (buffer ex_moved_out) (bytes_handled ex_moved_out) =
     Some \<lparr>wd = 2, mask = IN_MOVE_SELF, cookie = 0, len = 0, name = []\<rparr>
   \<and> find_watch (watches ex_moved_out) 2 = Some \<lparr>path = ''/a/d'', in_move = False\<rparr>
   \<and> set (table_order ex_env (watches ex_moved_out)) = set (watches ex_moved_out)
   \<and> (\<exists>rest. trace (snd (handle_event ex_env ex_moved_out)) = rest
          \<and> SysRmWatch 2 \<in> set rest)
   \<and> \<not> moved_in_event ex_env ex_moved
   \<and> no_new_flags ex_moved (snd (handle_event ex_env ex_moved))"
proof -
  let ?ev = "\<lparr>wd = 2, mask = IN_MOVE_SELF, cookie = 0, len = 0, name = []\<rparr>"
  let ?w = "\<lparr>path = ''/a/d'', in_move = True\<rparr>"
  let ?w' = "\<lparr>path = ''/a/d'', in_move = False\<rparr>"
  have h1: "event_at (buffer ex_moved) (bytes_handled ex_moved) = Some ?ev"
    by (simp add: ex_moved_def event_at_def)
  have h2: "0 \<le> bytes_handled ex_moved
      \<and> bytes_handled ex_moved + record_size ?ev \<le> bytes_in_buffer ex_moved
      \<and> bytes_in_buffer ex_moved \<le> sizeof_buffer"
    by (simp add: ex_moved_def record_size_def sizeof_event_def sizeof_buffer_def)
  have h3: "self_move_event ?ev"
    by (rule self_move_plain)
  have h4: "find_watch (watches ex_moved) (wd ?ev) = Some ?w"
    by (simp add: ex_moved_def find_watch_def)
  have h5: "in_move ?w" by simp
  have h6: "\<not> moved_in_event ex_env ex_moved"
    using h1 h4
    by (simp add: moved_in_event_def Let_def read_event_def IN_MOVE_SELF_def IN_MOVED_TO_def)
  have g1: "event_at (buffer ex_moved_out) (bytes_handled ex_moved_out) = Some ?ev"
    by (simp add: ex_moved_out_def event_at_def)
  have g2: "0 \<le> bytes_handled ex_moved_out
      \<and> bytes_handled ex_moved_out + record_size ?ev \<le> bytes_in_buffer ex_moved_out
      \<and> bytes_in_buffer ex_moved_out \<le> sizeof_buffer"
    by (simp add: ex_moved_out_def record_size_def sizeof_event_def sizeof_buffer_def)
  have g4: "find_watch (watches ex_moved_out) (wd ?ev) = Some ?w'"
    by (simp add: ex_moved_out_def find_watch_def)
  have g5: "\<not> in_move ?w'" by simp
  have g6: "set (table_order ex_env (watches ex_moved_out)) = set (watches ex_moved_out)"
    by (simp add: ex_env_def)
  from in_move_one_shot [where st = ex_moved and ev = ?ev and watch = ?w and e = ex_env
         and pth = "''/a''" and inmove = True] h1 h2 h3 h4 h5 h6
  have p1: "find_watch (watches (snd (handle_event ex_env ex_moved))) 2 = Some ?w'
        \<and> trace (snd (handle_event ex_env ex_moved)) = []
        \<and> no_new_flags ex_moved (snd (handle_event ex_env ex_moved))"
    by (simp add: ex_moved_def)
  from in_move_one_shot [where st = ex_moved_out and ev = ?ev and watch = ?w' and e = ex_env
         and pth = "''/a''" and inmove = True] g1 g2 h3 g4 g5 g6
  have p2: "\<exists>rest. trace (snd (handle_event ex_env ex_moved_out)) = rest
          \<and> SysRmWatch 2 \<in> set rest"
    by (simp add: ex_moved_out_def)
  show ?thesis
    using h1 h4 h6 g1 g4 g6 p1 p2 by simp
qed

subsection \<open>Reading with records pending\<close>

text \<open>Counterexample to C10 as stated: one record is left in the buffer on entry, the
  interest mask does not select it, and \<^verbatim>\<open>read(1000, 0)\<close> drains it and then, with time left,
  calls \<^verbatim>\<open>poll\<close> with the whole second before it returns \<^verbatim>\<open>nullptr\<close>.\<close>

theorem read_pending_polls:
  "bytes_in_buffer ex_pending = 64
   \<and> read ex_env ex_pending 1000 0 =
     Some (Inr None,
       ex_pending\<lparr>bytes_in_buffer := 0, bytes_handled := 0, trace := [SysPoll 1000],
                  clock_reads := 3\<rparr>)"
  by code_simp

text \<open>C10 (amended): when the buffer is not empty on entry, \<^verbatim>\<open>read\<close> goes to the drain loop
  at once, and the loop makes no call of \<^verbatim>\<open>poll\<close>, \<^verbatim>\<open>usleep\<close> or \<^verbatim>\<open>::read\<close>, however it ends.
  When the loop ends at a record that the interest mask selects, or in an error, that is
  the result of \<^verbatim>\<open>read\<close>, for every timeout and delay. When the loop ends without a match,
  \<^verbatim>\<open>read\<close> returns \<^verbatim>\<open>nullptr\<close> if the timeout is not negative and no time remains, and
  otherwise starts over with the time that remains. So a waiting call is made during the
  call only after the buffer was drained without a match, and only if the timeout is
  negative or time remains; with a zero timeout and a clock that does not go back, none
  is made. In particular a whole record at the cursor that the mask selects is returned
  for every timeout, zero included.\<close>

theorem read_drains_pending_first:
  "bytes_in_buffer st \<noteq> 0 \<longrightarrow>
     read e st timeout d =
       (case drain e (tick st) of
          None \<Rightarrow> None
        | Some (Inl err, st2) \<Rightarrow> Some (Inl err, st2)
        | Some (Inr (Some off), st2) \<Rightarrow> Some (Inr (Some off), st2)
        | Some (Inr None, st2) \<Rightarrow>
            if timeout < 0 then read e (tick st2) timeout d
            else if 0 < remaining e st st2 timeout
            then read e (tick st2) (remaining e st st2 timeout) d
            else Some (Inr None, tick st2))
     \<and> (\<forall>r st2. drain e (tick st) = Some (r, st2) \<longrightarrow>
           (\<exists>rest. trace st2 = trace st @ rest \<and> list_all (\<lambda>c. \<not> is_wait c) rest)
           \<and> (r \<noteq> Inr None \<longrightarrow> read e st timeout d = Some (r, st2))
           \<and> (\<forall>off. r = Inr (Some off) \<longrightarrow>
                 mask (read_event e (buffer st2) off) AND imask st \<noteq> 0)
           \<and> (r = Inr None \<and> 0 \<le> timeout \<and> remaining e st st2 timeout \<le> 0 \<longrightarrow>
                 read e st timeout d = Some (Inr None, tick st2)))
     \<and> (\<forall>r. read e st timeout d = Some r
             \<and> \<not> list_all (\<lambda>c. \<not> is_wait c) (drop (length (trace st)) (trace (snd r))) \<longrightarrow>
           (\<exists>st2. drain e (tick st) = Some (Inr None, st2)
              \<and> (timeout < 0 \<or> 0 < remaining e st st2 timeout)))
     \<and> (\<forall>r. timeout = 0 \<and> steady_clock e \<and> read e st timeout d = Some r \<longrightarrow>
           list_all (\<lambda>c. \<not> is_wait c) (drop (length (trace st)) (trace (snd r))))
     \<and> (\<forall>ev watch. event_at (buffer st) (bytes_handled st) = Some ev
           \<and> 0 \<le> bytes_handled st \<and> bytes_handled st + record_size ev \<le> bytes_in_buffer st
           \<and> bytes_in_buffer st \<le> sizeof_buffer
           \<and> find_watch (watches st) (wd ev) = Some watch
           \<and> mask ev AND (IN_CREATE OR IN_MOVED_TO) = 0
           \<and> mask ev AND IN_MOVE_SELF = 0 \<and> mask ev AND IN_IGNORED = 0
           \<and> mask ev AND imask st \<noteq> 0 \<longrightarrow>
           read e st timeout d = Some (Inr (Some (bytes_handled st)), advanced (tick st) ev))"
proof
  assume b0: "bytes_in_buffer st \<noteq> 0"
  let ?rhs = "case drain e (tick st) of
          None \<Rightarrow> None
        | Some (Inl err, st2) \<Rightarrow> Some (Inl err, st2)
        | Some (Inr (Some off), st2) \<Rightarrow> Some (Inr (Some off), st2)
        | Some (Inr None, st2) \<Rightarrow>
            if timeout < 0 then read e (tick st2) timeout d
            else if 0 < remaining e st st2 timeout
            then read e (tick st2) (remaining e st st2 timeout) d
            else Some (Inr None, tick st2)"
  have en: "enter e st timeout d = (Continue, tick st)"
    using b0 by (simp add: enter_def tick_def)
  have A: "read e st timeout d = ?rhs"
    by (subst read_unfold) (simp add: en)
  have tr: "\<exists>rest. trace st2 = trace st @ rest \<and> list_all (\<lambda>c. \<not> is_wait c) rest"
    and im: "imask st2 = imask st" and cr: "clock_reads st2 = Suc (clock_reads st)"
    if "drain e (tick st) = Some (r, st2)" for r st2
    using drain_quiet [OF that] by (simp_all add: quiet_def tick_def)
  have nw: "list_all (\<lambda>c. \<not> is_wait c) (drop (length (trace st)) (trace st2))"
    if "drain e (tick st) = Some (r, st2)" for r st2
    using tr [OF that] by auto
  have B: "(\<exists>rest. trace st2 = trace st @ rest \<and> list_all (\<lambda>c. \<not> is_wait c) rest)
           \<and> (r \<noteq> Inr None \<longrightarrow> read e st timeout d = Some (r, st2))
           \<and> (\<forall>off. r = Inr (Some off) \<longrightarrow>
                 mask (read_event e (buffer st2) off) AND imask st \<noteq> 0)
           \<and> (r = Inr None \<and> 0 \<le> timeout \<and> remaining e st st2 timeout \<le> 0 \<longrightarrow>
                 read e st timeout d = Some (Inr None, tick st2))"
    if dr: "drain e (tick st) = Some (r, st2)" for r st2
  proof -
    have 1: "r \<noteq> Inr None \<longrightarrow> read e st timeout d = Some (r, st2)"
      unfolding A using dr by (cases r) (auto split: option.splits)
    have 2: "\<forall>off. r = Inr (Some off) \<longrightarrow>
                 mask (read_event e (buffer st2) off) AND imask st \<noteq> 0"
      using drain_match [OF dr] im [OF dr] by simp
    have 3: "r = Inr None \<and> 0 \<le> timeout \<and> remaining e st st2 timeout \<le> 0 \<longrightarrow>
                 read e st timeout d = Some (Inr None, tick st2)"
      unfolding A using dr by simp
    show ?thesis using tr [OF dr] 1 2 3 by blast
  qed
  have C: "\<exists>st2. drain e (tick st) = Some (Inr None, st2)
              \<and> (timeout < 0 \<or> 0 < remaining e st st2 timeout)"
    if rd: "read e st timeout d = Some r"
      and w: "\<not> list_all (\<lambda>c. \<not> is_wait c) (drop (length (trace st)) (trace (snd r)))" for r
  proof (cases "drain e (tick st)")
    case None
    then show ?thesis using rd A by simp
  next
    case (Some res)
    obtain r2 st2 where res: "res = (r2, st2)" by (cases res) auto
    have dr: "drain e (tick st) = Some (r2, st2)" using Some res by simp
    show ?thesis
    proof (cases "r2 = Inr None")
      case False
      then have "r = (r2, st2)" using B [OF dr] rd by simp
      then show ?thesis using w nw [OF dr] by simp
    next
      case True
      show ?thesis
      proof (cases "timeout < 0 \<or> 0 < remaining e st st2 timeout")
        case True
        then show ?thesis using dr \<open>r2 = Inr None\<close> by blast
      next
        case False
        then have "r = (Inr None, tick st2)" using B [OF dr] rd True by simp
        then show ?thesis using w nw [OF dr] by (simp add: tick_def)
      qed
    qed
  qed
  have D: "list_all (\<lambda>c. \<not> is_wait c) (drop (length (trace st)) (trace (snd r)))"
    if t0: "timeout = 0" and sc: "steady_clock e" and rd: "read e st timeout d = Some r" for r
  proof (rule ccontr)
    assume "\<not> ?thesis"
    from C [OF rd this] obtain st2
      where dr: "drain e (tick st) = Some (Inr None, st2)"
        and pos: "timeout < 0 \<or> 0 < remaining e st st2 timeout" by blast
    let ?el = "elapsed_ms (clock_now e (clock_reads st)) (clock_now e (clock_reads st2))"
    have el: "0 \<le> ?el"
      using sc cr [OF dr] by (simp add: steady_clock_def)
    have eu: "?el < 2 ^ 31"
      using to_int32_range by (simp add: elapsed_ms_def)
    have "remaining e st st2 timeout = 0 - ?el"
      unfolding remaining_def t0 using el eu by (intro to_int32_id) simp_all
    then show False using pos t0 el by simp
  qed
  have E: "read e st timeout d = Some (Inr (Some (bytes_handled st)), advanced (tick st) ev)"
    if h: "event_at (buffer st) (bytes_handled st) = Some ev"
      "0 \<le> bytes_handled st" "bytes_handled st + record_size ev \<le> bytes_in_buffer st"
      "bytes_in_buffer st \<le> sizeof_buffer"
      "find_watch (watches st) (wd ev) = Some watch"
      "mask ev AND (IN_CREATE OR IN_MOVED_TO) = 0"
      and m: "mask ev AND IN_MOVE_SELF = 0" "mask ev AND IN_IGNORED = 0"
        "mask ev AND imask st \<noteq> 0" for ev watch
  proof -
    have t: "event_at (buffer (tick st)) (bytes_handled (tick st)) = Some ev"
      "0 \<le> bytes_handled (tick st)"
      "bytes_handled (tick st) + record_size ev \<le> bytes_in_buffer (tick st)"
      "bytes_in_buffer (tick st) \<le> sizeof_buffer"
      "find_watch (watches (tick st)) (wd ev) = Some watch"
      using h by (simp_all add: tick_def)
    have he: "handle_event e (tick st) =
        handle_rest e (advanced (tick st) ev) (bytes_handled (tick st)) (wd ev)"
      using t h(6) by (rule handle_event_plain)
    have re: "read_event e (buffer (advanced (tick st) ev)) (bytes_handled (tick st)) = ev"
      using t(1) by (simp add: advanced_frame read_event_whole)
    have im: "imask (advanced (tick st) ev) = imask st"
      by (simp add: advanced_frame tick_def)
    have hr: "handle_rest e (advanced (tick st) ev) (bytes_handled (tick st)) (wd ev) =
        (Inr (Some (bytes_handled st)), advanced (tick st) ev)"
      using m by (simp add: handle_rest_def Let_def re im) (simp add: tick_def)
    have "drain e (tick st) = Some (Inr (Some (bytes_handled st)), advanced (tick st) ev)"
      by (subst drain.simps) (simp add: he hr)
    from B [OF this] show ?thesis by simp
  qed
  show "read e st timeout d = ?rhs
     \<and> (\<forall>r st2. drain e (tick st) = Some (r, st2) \<longrightarrow>
           (\<exists>rest. trace st2 = trace st @ rest \<and> list_all (\<lambda>c. \<not> is_wait c) rest)
           \<and> (r \<noteq> Inr None \<longrightarrow> read e st timeout d = Some (r, st2))
           \<and> (\<forall>off. r = Inr (Some off) \<longrightarrow>
                 mask (read_event e (buffer st2) off) AND imask st \<noteq> 0)
           \<and> (r = Inr None \<and> 0 \<le> timeout \<and> remaining e st st2 timeout \<le> 0 \<longrightarrow>
                 read e st timeout d = Some (Inr None, tick st2)))
     \<and> (\<forall>r. read e st timeout d = Some r
             \<and> \<not> list_all (\<lambda>c. \<not> is_wait c) (drop (length (trace st)) (trace (snd r))) \<longrightarrow>
           (\<exists>st2. drain e (tick st) = Some (Inr None, st2)
              \<and> (timeout < 0 \<or> 0 < remaining e st st2 timeout)))
     \<and> (\<forall>r. timeout = 0 \<and> steady_clock e \<and> read e st timeout d = Some r \<longrightarrow>
           list_all (\<lambda>c. \<not> is_wait c) (drop (length (trace st)) (trace (snd r))))
     \<and> (\<forall>ev watch. event_at (buffer st) (bytes_handled st) = Some ev
           \<and> 0 \<le> bytes_handled st \<and> bytes_handled st + record_size ev \<le> bytes_in_buffer st
           \<and> bytes_in_buffer st \<le> sizeof_buffer
           \<and> find_watch (watches st) (wd ev) = Some watch
           \<and> mask ev AND (IN_CREATE OR IN_MOVED_TO) = 0
           \<and> mask ev AND IN_MOVE_SELF = 0 \<and> mask ev AND IN_IGNORED = 0
           \<and> mask ev AND imask st \<noteq> 0 \<longrightarrow>
           read e st timeout d = Some (Inr (Some (bytes_handled st)), advanced (tick st) ev))"
    using A B C D E by blast
qed

theorem read_drains_pending_first_witness:
  "bytes_in_buffer ex_pending2 \<noteq> 0
   \<and> drain ex_env (tick ex_pending2) =
       Some (Inr (Some 64),
             ex_pending2\<lparr>bytes_in_buffer := 0, bytes_handled := 0, clock_reads := 1\<rparr>)
   \<and> read ex_env ex_pending2 0 0 =
       Some (Inr (Some 64),
             ex_pending2\<lparr>bytes_in_buffer := 0, bytes_handled := 0, clock_reads := 1\<rparr>)
   \<and> mask (read_event ex_env (buffer ex_pending2) 64) AND imask ex_pending2 \<noteq> 0
   \<and> bytes_in_buffer ex_pending \<noteq> 0
   \<and> drain ex_env (tick ex_pending) =
       Some (Inr None,
             ex_pending\<lparr>bytes_in_buffer := 0, bytes_handled := 0, clock_reads := 1\<rparr>)
   \<and> steady_clock ex_env
   \<and> read ex_env ex_pending 0 0 =
       Some (Inr None,
             ex_pending\<lparr>bytes_in_buffer := 0, bytes_handled := 0, clock_reads := 2\<rparr>)
   \<and> list_all (\<lambda>c. \<not> is_wait c) (drop (length (trace ex_pending))
        (trace (ex_pending\<lparr>bytes_in_buffer := 0, bytes_handled := 0, clock_reads := 2\<rparr>)))"
proof -
  let ?s2 = "ex_pending2\<lparr>bytes_in_buffer := 0, bytes_handled := 0, clock_reads := 1\<rparr>"
  let ?s1 = "ex_pending\<lparr>bytes_in_buffer := 0, bytes_handled := 0, clock_reads := 1\<rparr>"
  let ?s1' = "ex_pending\<lparr>bytes_in_buffer := 0, bytes_handled := 0, clock_reads := 2\<rparr>"
  have h1: "bytes_in_buffer ex_pending2 \<noteq> 0"
    by (simp add: ex_pending2_def)
  have h2: "drain ex_env (tick ex_pending2) = Some (Inr (Some 64), ?s2)"
    by code_simp
  have g1: "bytes_in_buffer ex_pending \<noteq> 0"
    by (simp add: ex_pending_def)
  have g2: "drain ex_env (tick ex_pending) = Some (Inr None, ?s1)"
    by code_simp
  have g3: "remaining ex_env ex_pending ?s1 0 \<le> 0"
    by (simp add: remaining_def ex_env_def elapsed_ms_def ns_to_ms_def to_int32_def)
  have g4: "steady_clock ex_env"
    by (simp add: steady_clock_def ex_env_def elapsed_ms_def ns_to_ms_def to_int32_def)
  have g5: "tick ?s1 = ?s1'"
    by (simp add: tick_def)
  from read_drains_pending_first [where e = ex_env and st = ex_pending2 and timeout = 0
         and d = 0] h1 h2
  have p: "read ex_env ex_pending2 0 0 = Some (Inr (Some 64), ?s2)
        \<and> mask (read_event ex_env (buffer ?s2) 64) AND imask ex_pending2 \<noteq> 0"
    by simp
  from read_drains_pending_first [where e = ex_env and st = ex_pending and timeout = 0
         and d = 0] g1 g2 g3 g4 g5
  have q: "read ex_env ex_pending 0 0 = Some (Inr None, ?s1')
        \<and> list_all (\<lambda>c. \<not> is_wait c) (drop (length (trace ex_pending)) (trace ?s1'))"
    by simp
  show ?thesis
    using h1 h2 g1 g2 g4 p q by simp
qed

subsection \<open>The timeout of \<^verbatim>\<open>read\<close>\<close>

text \<open>Counterexample to C6 as stated: \<^verbatim>\<open>read(1000, 0)\<close> finds a record pending that the
  interest mask does not select; the system clock is set back by a millisecond between
  the two readings of the round, so the elapsed time is measured as \<^verbatim>\<open>-1\<close> and the retry
  asks \<^verbatim>\<open>poll\<close> to wait 1001 milliseconds, which it does: more than the caller's 1000.\<close>

theorem read_clock_set_back_polls_longer:
  "read ex_env_back ex_pending 1000 0 =
     Some (Inr None,
       ex_pending\<lparr>bytes_in_buffer := 0, bytes_handled := 0, trace := [SysPoll 1001],
                  clock_reads := 3\<rparr>)
   \<and> sys_poll ex_env_back 0 1001 = PollTimeout"
  by code_simp

text \<open>C6 (amended): (1) with the buffer empty and nothing ready, \<^verbatim>\<open>read\<close> returns \<^verbatim>\<open>nullptr\<close>
  after the one call \<^verbatim>\<open>poll(timeout)\<close>, for a zero timeout at once. (2) A round that drained
  the buffer without a match has read the clock twice; a negative timeout is passed to the
  retry as it is, any other one less the time the round measured (as a 32-bit \<^verbatim>\<open>int\<close>), and
  without a retry (\<^verbatim>\<open>nullptr\<close>) when that is not positive. (3) For every call that returns:
  the calls of \<^verbatim>\<open>poll\<close> it makes are given the negative timeout itself, or, when the clock
  never makes the measured time negative, a timeout between zero and the caller's; under
  the same condition \<^verbatim>\<open>nullptr\<close> is returned either after \<open>k > 0\<close> rounds whose measured
  times add up to the timeout or more, or when \<^verbatim>\<open>poll\<close>, called with what \<open>k\<close> rounds left of
  the timeout, reports a timeout; and with a negative timeout \<^verbatim>\<open>nullptr\<close> is never returned
  unless \<^verbatim>\<open>poll\<close> reports a timeout.\<close>

theorem read_timeout_accounting:
  "(bytes_in_buffer st = 0 \<and> sys_poll e (length (trace st)) timeout = PollTimeout \<longrightarrow>
      read e st timeout d = Some (Inr None, syscall (tick st) (SysPoll timeout)))
   \<and> (\<forall>st1 st2. enter e st timeout d = (Continue, st1) \<and> drain e st1 = Some (Inr None, st2) \<longrightarrow>
         clock_reads st2 = Suc (clock_reads st)
         \<and> read e st timeout d =
             (if timeout < 0 then read e (tick st2) timeout d
              else if 0 < remaining e st st2 timeout
              then read e (tick st2) (remaining e st st2 timeout) d
              else Some (Inr None, tick st2))
         \<and> (steady_clock e \<and> 0 \<le> timeout \<and> timeout < 2 ^ 31 \<longrightarrow>
               remaining e st st2 timeout =
                 timeout - elapsed_ms (clock_now e (clock_reads st))
                                      (clock_now e (Suc (clock_reads st)))))
   \<and> (\<forall>r. read e st timeout d = Some r \<longrightarrow>
         (\<exists>rest. trace (snd r) = trace st @ rest
            \<and> (timeout < 0 \<longrightarrow> (\<forall>t. SysPoll t \<in> set rest \<longrightarrow> t = timeout))
            \<and> (steady_clock e \<and> 0 \<le> timeout \<and> timeout < 2 ^ 31 \<longrightarrow>
                  (\<forall>t. SysPoll t \<in> set rest \<longrightarrow> 0 \<le> t \<and> t \<le> timeout)))
         \<and> (steady_clock e \<and> 0 \<le> timeout \<and> timeout < 2 ^ 31 \<and> fst r = Inr None \<longrightarrow>
              (\<exists>k. (0 < k \<and> clock_reads (snd r) = clock_reads st + 2 * k
                      \<and> timeout \<le> spent e (clock_reads st) k)
                 \<or> (clock_reads (snd r) = clock_reads st + 2 * k + 1
                      \<and> spent e (clock_reads st) k \<le> timeout
                      \<and> (\<exists>pre. trace (snd r) =
                                  pre @ [SysPoll (timeout - spent e (clock_reads st) k)]
                           \<and> sys_poll e (length pre) (timeout - spent e (clock_reads st) k)
                               = PollTimeout))))
         \<and> (timeout < 0 \<and> (\<forall>n. sys_poll e n timeout \<noteq> PollTimeout) \<longrightarrow> fst r \<noteq> Inr None))"
proof -
  have A: "read e st timeout d = Some (Inr None, syscall (tick st) (SysPoll timeout))"
    if b: "bytes_in_buffer st = 0" and p: "sys_poll e (length (trace st)) timeout = PollTimeout"
  proof -
    have "fill e (tick st) timeout d = (Return (Inr None), syscall (tick st) (SysPoll timeout))"
      using p by (simp add: fill_def Let_def tick_def)
    then have "enter e st timeout d = (Return (Inr None), syscall (tick st) (SysPoll timeout))"
      using b by (simp add: enter_def tick_def)
    then show ?thesis
      by (subst read_unfold) simp
  qed
  have B: "clock_reads st2 = Suc (clock_reads st)
         \<and> read e st timeout d =
             (if timeout < 0 then read e (tick st2) timeout d
              else if 0 < remaining e st st2 timeout
              then read e (tick st2) (remaining e st st2 timeout) d
              else Some (Inr None, tick st2))
         \<and> (steady_clock e \<and> 0 \<le> timeout \<and> timeout < 2 ^ 31 \<longrightarrow>
               remaining e st st2 timeout =
                 timeout - elapsed_ms (clock_now e (clock_reads st))
                                      (clock_now e (Suc (clock_reads st))))"
    if en: "enter e st timeout d = (Continue, st1)" and dr: "drain e st1 = Some (Inr None, st2)"
    for st1 st2
  proof -
    have cr: "clock_reads st2 = Suc (clock_reads st)"
      using enter_polls [OF en] drain_quiet [OF dr] by (simp add: quiet_def)
    have rd: "read e st timeout d =
             (if timeout < 0 then read e (tick st2) timeout d
              else if 0 < remaining e st st2 timeout
              then read e (tick st2) (remaining e st st2 timeout) d
              else Some (Inr None, tick st2))"
      by (subst read_unfold) (simp add: en dr)
    have nw: "remaining e st st2 timeout =
                 timeout - elapsed_ms (clock_now e (clock_reads st))
                                      (clock_now e (Suc (clock_reads st)))"
      if sc: "steady_clock e" and t0: "0 \<le> timeout" and t1: "timeout < 2 ^ 31"
    proof -
      let ?el = "elapsed_ms (clock_now e (clock_reads st)) (clock_now e (Suc (clock_reads st)))"
      have el: "0 \<le> ?el"
        using sc by (simp add: steady_clock_def)
      have eu: "?el < 2 ^ 31"
        using to_int32_range by (simp add: elapsed_ms_def)
      show ?thesis
        unfolding remaining_def cr using t0 t1 el eu by (intro to_int32_id) simp_all
    qed
    show ?thesis using cr rd nw by blast
  qed
  have C: "(\<exists>rest. trace (snd r) = trace st @ rest
            \<and> (timeout < 0 \<longrightarrow> (\<forall>t. SysPoll t \<in> set rest \<longrightarrow> t = timeout))
            \<and> (steady_clock e \<and> 0 \<le> timeout \<and> timeout < 2 ^ 31 \<longrightarrow>
                  (\<forall>t. SysPoll t \<in> set rest \<longrightarrow> 0 \<le> t \<and> t \<le> timeout)))
         \<and> (steady_clock e \<and> 0 \<le> timeout \<and> timeout < 2 ^ 31 \<and> fst r = Inr None \<longrightarrow>
              (\<exists>k. (0 < k \<and> clock_reads (snd r) = clock_reads st + 2 * k
                      \<and> timeout \<le> spent e (clock_reads st) k)
                 \<or> (clock_reads (snd r) = clock_reads st + 2 * k + 1
                      \<and> spent e (clock_reads st) k \<le> timeout
                      \<and> (\<exists>pre. trace (snd r) =
                                  pre @ [SysPoll (timeout - spent e (clock_reads st) k)]
                           \<and> sys_poll e (length pre) (timeout - spent e (clock_reads st) k)
                               = PollTimeout))))
         \<and> (timeout < 0 \<and> (\<forall>n. sys_poll e n timeout \<noteq> PollTimeout) \<longrightarrow> fst r \<noteq> Inr None)"
    if rd: "read e st timeout d = Some r" for r
  proof -
    from read_polls [OF rd] obtain rest
      where r: "trace (snd r) = trace st @ rest"
        "timeout < 0 \<longrightarrow> (\<forall>t. SysPoll t \<in> set rest \<longrightarrow> t = timeout)"
        "steady_clock e \<longrightarrow> 0 \<le> timeout \<longrightarrow> timeout < 2 ^ 31 \<longrightarrow>
          (\<forall>t. SysPoll t \<in> set rest \<longrightarrow> 0 \<le> t \<and> t \<le> timeout)"
      by blast
    have "trace (snd r) = trace st @ rest
            \<and> (timeout < 0 \<longrightarrow> (\<forall>t. SysPoll t \<in> set rest \<longrightarrow> t = timeout))
            \<and> (steady_clock e \<and> 0 \<le> timeout \<and> timeout < 2 ^ 31 \<longrightarrow>
                  (\<forall>t. SysPoll t \<in> set rest \<longrightarrow> 0 \<le> t \<and> t \<le> timeout))"
      using r by simp
    then have 1: "\<exists>rest. trace (snd r) = trace st @ rest
            \<and> (timeout < 0 \<longrightarrow> (\<forall>t. SysPoll t \<in> set rest \<longrightarrow> t = timeout))
            \<and> (steady_clock e \<and> 0 \<le> timeout \<and> timeout < 2 ^ 31 \<longrightarrow>
                  (\<forall>t. SysPoll t \<in> set rest \<longrightarrow> 0 \<le> t \<and> t \<le> timeout))"
      by (rule exI)
    have 2: "steady_clock e \<and> 0 \<le> timeout \<and> timeout < 2 ^ 31 \<and> fst r = Inr None \<longrightarrow>
              (\<exists>k. (0 < k \<and> clock_reads (snd r) = clock_reads st + 2 * k
                      \<and> timeout \<le> spent e (clock_reads st) k)
                 \<or> (clock_reads (snd r) = clock_reads st + 2 * k + 1
                      \<and> spent e (clock_reads st) k \<le> timeout
                      \<and> (\<exists>pre. trace (snd r) =
                                  pre @ [SysPoll (timeout - spent e (clock_reads st) k)]
                           \<and> sys_poll e (length pre) (timeout - spent e (clock_reads st) k)
                               = PollTimeout)))"
      using read_null_cumulative [OF rd] by simp
    have 3: "timeout < 0 \<and> (\<forall>n. sys_poll e n timeout \<noteq> PollTimeout) \<longrightarrow> fst r \<noteq> Inr None"
      using read_negative_null [OF rd] by blast
    show ?thesis using 1 2 3 by (intro conjI)
  qed
  show ?thesis
    using A B C by (intro conjI allI impI) blast+
qed

theorem read_timeout_accounting_witness:
  "bytes_in_buffer (ex_state 2) = 0
   \<and> sys_poll ex_env (length (trace (ex_state 2))) 0 = PollTimeout
   \<and> read ex_env (ex_state 2) 0 0 = Some (Inr None, syscall (tick (ex_state 2)) (SysPoll 0))
   \<and> enter ex_env ex_pending 1000 0 = (Continue, tick ex_pending)
   \<and> drain ex_env (tick ex_pending) =
       Some (Inr None,
             ex_pending\<lparr>bytes_in_buffer := 0, bytes_handled := 0, clock_reads := 1\<rparr>)
   \<and> steady_clock ex_env
   \<and> remaining ex_env ex_pending
        (ex_pending\<lparr>bytes_in_buffer := 0, bytes_handled := 0, clock_reads := 1\<rparr>) 1000 = 1000
   \<and> read ex_env ex_pending 1000 0 =
       read ex_env (ex_pending\<lparr>bytes_in_buffer := 0, bytes_handled := 0, clock_reads := 2\<rparr>)
         1000 0
   \<and> read ex_env ex_pending 1000 0 =
       Some (Inr None,
         ex_pending\<lparr>bytes_in_buffer := 0, bytes_handled := 0, trace := [SysPoll 1000],
                    clock_reads := 3\<rparr>)
   \<and> read ex_env_ready ex_watched (- 1) 0 =
       Some (Inr (Some 0),
         ex_watched\<lparr>buffer := [(0, \<lparr>wd = 1, mask = 2, cookie = 0, len = 16, name = ''f''\<rparr>)],
                    bytes_in_buffer := 0, bytes_handled := 0,
                    trace := [SysPoll (- 1), SysUsleep 0, SysRead], clock_reads := 1\<rparr>)"
proof -
  let ?s1 = "ex_pending\<lparr>bytes_in_buffer := 0, bytes_handled := 0, clock_reads := 1\<rparr>"
  let ?s3 = "ex_pending\<lparr>bytes_in_buffer := 0, bytes_handled := 0, trace := [SysPoll 1000],
                        clock_reads := 3\<rparr>"
  let ?w = "ex_watched\<lparr>buffer := [(0, \<lparr>wd = 1, mask = 2, cookie = 0, len = 16, name = ''f''\<rparr>)],
                    bytes_in_buffer := 0, bytes_handled := 0,
                    trace := [SysPoll (- 1), SysUsleep 0, SysRead], clock_reads := 1\<rparr>"
  have a1: "bytes_in_buffer (ex_state 2) = 0"
    by (simp add: ex_state_def)
  have a2: "sys_poll ex_env (length (trace (ex_state 2))) 0 = PollTimeout"
    by (simp add: ex_env_def)
  have b1: "enter ex_env ex_pending 1000 0 = (Continue, tick ex_pending)"
    by (simp add: enter_def tick_def ex_pending_def)
  have b2: "drain ex_env (tick ex_pending) = Some (Inr None, ?s1)"
    by code_simp
  have b3: "steady_clock ex_env"
    by (simp add: steady_clock_def ex_env_def elapsed_ms_def ns_to_ms_def to_int32_def)
  have b4: "elapsed_ms (clock_now ex_env (clock_reads ex_pending))
              (clock_now ex_env (Suc (clock_reads ex_pending))) = 0"
    by (simp add: ex_env_def elapsed_ms_def ns_to_ms_def to_int32_def)
  have b5: "tick ?s1 = ex_pending\<lparr>bytes_in_buffer := 0, bytes_handled := 0, clock_reads := 2\<rparr>"
    by (simp add: tick_def)
  have c1: "read ex_env ex_pending 1000 0 = Some (Inr None, ?s3)"
    by code_simp
  have d1: "\<forall>n. sys_poll ex_env_ready n (- 1) \<noteq> PollTimeout"
    by (simp add: ex_env_ready_def)
  have d2: "read ex_env_ready ex_watched (- 1) 0 = Some (Inr (Some 0), ?w)"
    by code_simp
  note t1 = read_timeout_accounting [where e = ex_env and st = "ex_state 2" and timeout = 0
      and d = 0]
  note t2 = read_timeout_accounting [where e = ex_env and st = ex_pending and timeout = 1000
      and d = 0]
  note t3 = read_timeout_accounting [where e = ex_env_ready and st = ex_watched
      and timeout = "- 1" and d = 0]
  have p1: "read ex_env (ex_state 2) 0 0 =
      Some (Inr None, syscall (tick (ex_state 2)) (SysPoll 0))"
    using t1 a1 a2 by blast
  have p2: "remaining ex_env ex_pending ?s1 1000 = 1000
      \<and> read ex_env ex_pending 1000 0 =
          read ex_env (ex_pending\<lparr>bytes_in_buffer := 0, bytes_handled := 0, clock_reads := 2\<rparr>)
            1000 0"
  proof -
    from t2 b1 b2 have
      "read ex_env ex_pending 1000 0 =
         (if (1000::int) < 0 then read ex_env (tick ?s1) 1000 0
          else if 0 < remaining ex_env ex_pending ?s1 1000
          then read ex_env (tick ?s1) (remaining ex_env ex_pending ?s1 1000) 0
          else Some (Inr None, tick ?s1))
       \<and> (steady_clock ex_env \<and> (0::int) \<le> 1000 \<and> (1000::int) < 2 ^ 31 \<longrightarrow>
            remaining ex_env ex_pending ?s1 1000 =
              1000 - elapsed_ms (clock_now ex_env (clock_reads ex_pending))
                       (clock_now ex_env (Suc (clock_reads ex_pending))))"
      by blast
    then show ?thesis using b3 b4 b5 by simp
  qed
  have p4: "fst (Inr (Some 0) :: error + int option, ?w) \<noteq> Inr None"
    using t3 d1 d2 by simp
  show ?thesis
    using a1 a2 p1 b1 b2 b3 p2 c1 p4 d2 by simp
qed

end
